theory Spec2Isabelle
  imports Main "HOL-Library.Word" "HOL-Library.AList" "HOL-Library.Sublist"
begin

unbundle bit_operations_syntax

section \<open>Bytes and the binary I/O helpers\<close>

text \<open>
  A \<open>String\<close> of the source is a sequence of bytes. The write and read buffers
  (\<open>WriteBufferFromOwnString\<close>, \<open>WriteBufferFromFile\<close>, \<open>ReadBufferFromMemory\<close>) are
  modelled by the bytes written so far and by the bytes that remain to be read.
\<close>

type_synonym byte = "8 word"

text \<open>
  Modelled from the spec: \<open>writeIntBinary\<close>, \<open>readIntBinary\<close>, \<open>writeString\<close> and
  \<open>readStrict\<close> are declared in Common/IO, which is not under src/. The spec (4.1) gives
  them as fixed-width little-endian writes and reads, a verbatim append, and a strict read
  that fails when fewer than the requested bytes remain.
\<close>

fun le_bytes :: "nat \<Rightarrow> 'a::len word \<Rightarrow> byte list" where
  "le_bytes 0 w = []"
| "le_bytes (Suc n) w = ucast w # le_bytes n (drop_bit 8 w)"

fun le_word :: "byte list \<Rightarrow> 'a::len word" where
  "le_word [] = 0"
| "le_word (b # bs) = ucast b OR push_bit 8 (le_word bs)"

definition writeIntBinary8 :: "8 word \<Rightarrow> byte list" where
  "writeIntBinary8 v = le_bytes 1 v"

definition writeIntBinary32 :: "32 word \<Rightarrow> byte list" where
  "writeIntBinary32 v = le_bytes 4 v"

definition writeIntBinary64 :: "64 word \<Rightarrow> byte list" where
  "writeIntBinary64 v = le_bytes 8 v"

text \<open>
  The exceptions that leave \<open>SnapshotBatchBody::parse\<close>: the strict read that finds too
  few bytes, and \<open>std::length_error\<close> of \<open>reserve\<close> and \<open>resize\<close> when a negative
  \<open>int32_t\<close> is converted to \<open>size_t\<close>. Both are the spec's kind \<open>Malformed\<close>: the batch
  codec cannot parse.
\<close>

datatype parse_failure = UnexpectedEof | LengthError

definition readStrict :: "nat \<Rightarrow> byte list \<Rightarrow> parse_failure + (byte list \<times> byte list)" where
  "readStrict n inp = (if length inp < n then Inl UnexpectedEof else Inr (take n inp, drop n inp))"

definition readIntBinary32 :: "byte list \<Rightarrow> parse_failure + (32 word \<times> byte list)" where
  "readIntBinary32 inp =
     (case readStrict 4 inp of
        Inl e \<Rightarrow> Inl e
      | Inr (bs, rest) \<Rightarrow> Inr (le_word bs, rest))"

section \<open>The batch body codec (SnapshotCommon.cpp)\<close>

text \<open>
  \<open>SnapshotBatchBody\<close> has a type tag and a vector of elements. \<open>serialize\<close> and \<open>parse\<close>
  only see the tag through \<open>static_cast<int32_t>\<close> and back, so the field holds the
  tag's 32-bit value.
\<close>

record SnapshotBatchBody =
  type :: "32 word"
  elements :: "byte list list"

definition add :: "byte list \<Rightarrow> SnapshotBatchBody \<Rightarrow> SnapshotBatchBody" where
  "add element b = b\<lparr>elements := elements b @ [element]\<rparr>"

definition serialize_element :: "byte list \<Rightarrow> byte list" where
  "serialize_element element = writeIntBinary32 (of_nat (length element)) @ element"

definition serialize :: "SnapshotBatchBody \<Rightarrow> byte list" where
  "serialize batch_body =
     writeIntBinary32 (type batch_body)
     @ writeIntBinary32 (of_nat (length (elements batch_body)))
     @ concat (map serialize_element (elements batch_body))"

text \<open>
  The loop \<open>for (int i = 0; i < element_count; i++)\<close> of \<open>parse\<close>, by the number of
  iterations that remain. It returns the elements read, in order, and the input left.
  A negative size makes \<open>resize\<close> throw; an allocation of a size that is not negative is
  taken to succeed, so that a size beyond the input is caught by the strict read.
\<close>

fun parse_elements :: "nat \<Rightarrow> byte list \<Rightarrow> parse_failure + (byte list list \<times> byte list)" where
  "parse_elements 0 inp = Inr ([], inp)"
| "parse_elements (Suc n) inp =
     (case readIntBinary32 inp of
        Inl e \<Rightarrow> Inl e
      | Inr (element_size, in1) \<Rightarrow>
          if sint element_size < 0 then Inl LengthError
          else (case readStrict (nat (sint element_size)) in1 of
                  Inl e \<Rightarrow> Inl e
                | Inr (element, in2) \<Rightarrow>
                    (case parse_elements n in2 of
                       Inl e \<Rightarrow> Inl e
                     | Inr (es, rest) \<Rightarrow> Inr (element # es, rest))))"

definition parse :: "byte list \<Rightarrow> parse_failure + SnapshotBatchBody" where
  "parse data =
     (case readIntBinary32 data of
        Inl e \<Rightarrow> Inl e
      | Inr (ty, in1) \<Rightarrow>
          (case readIntBinary32 in1 of
             Inl e \<Rightarrow> Inl e
           | Inr (element_count, in2) \<Rightarrow>
               if sint element_count < 0 then Inl LengthError
               else (case parse_elements (nat (sint element_count)) in2 of
                       Inl e \<Rightarrow> Inl e
                     | Inr (es, rest) \<Rightarrow> Inr \<lparr>type = ty, elements = es\<rparr>)))"

text \<open>
  The inputs the spec calls malformed by length: the type and the count do not fit, or,
  walking the elements in order, a length prefix does not fit or announces more bytes than
  remain.
\<close>

fun length_exceeds_input :: "nat \<Rightarrow> byte list \<Rightarrow> bool" where
  "length_exceeds_input 0 inp = False"
| "length_exceeds_input (Suc n) inp =
     (length inp < 4 \<or>
      (let l = sint (le_word (take 4 inp) :: 32 word) in
         int (length inp) - 4 < l \<or>
         (0 \<le> l \<and> length_exceeds_input n (drop (4 + nat l) inp))))"

definition reads_past_end :: "byte list \<Rightarrow> bool" where
  "reads_past_end data =
     (length data < 8 \<or>
      (let c = sint (le_word (take 4 (drop 4 data)) :: 32 word) in
         0 < c \<and> length_exceeds_input (nat c) (drop 8 data)))"

section \<open>Checksums (SnapshotCommon.cpp)\<close>

text \<open>
  Modelled from the spec: \<open>RK::getCRC32\<close> is declared in Service/KeeperUtils.h, which is
  not under src/. The spec (4.2) gives it as the CRC-32 of IEEE 802.3: reflected polynomial
  \<open>0xEDB88320\<close>, initial value \<open>0xFFFFFFFF\<close>, final XOR \<open>0xFFFFFFFF\<close>.
\<close>

definition crc_step :: "32 word \<Rightarrow> 32 word" where
  "crc_step c = (if bit c 0 then drop_bit 1 c XOR 0xEDB88320 else drop_bit 1 c)"

definition crc_byte :: "32 word \<Rightarrow> byte \<Rightarrow> 32 word" where
  "crc_byte c b = (crc_step ^^ 8) (c XOR ucast b)"

definition getCRC32 :: "byte list \<Rightarrow> 32 word" where
  "getCRC32 bs = foldl crc_byte 0xFFFFFFFF bs XOR 0xFFFFFFFF"

text \<open>
  \<open>updateCheckSum\<close> writes the two values into the members \<open>crc[0]\<close> and \<open>crc[1]\<close> of
  a union with a \<open>UInt64\<close> and passes the address of the union, with length 8, to
  \<open>getCRC32\<close>. The union is modelled by its 8 bytes of storage; \<open>store_u32\<close> is the store
  of a \<open>UInt32\<close> at a byte offset on the little-endian hosts the service is built for.
\<close>

definition store_u32 :: "byte list \<Rightarrow> nat \<Rightarrow> 32 word \<Rightarrow> byte list" where
  "store_u32 mem off v = take off mem @ le_bytes 4 v @ drop (off + 4) mem"

definition updateCheckSum :: "32 word \<Rightarrow> 32 word \<Rightarrow> 32 word" where
  "updateCheckSum checksum data_crc =
     (let data = replicate 8 0;
          data = store_u32 data 0 checksum;
          data = store_u32 data 4 data_crc
      in getCRC32 (take 8 data))"

section \<open>The snapshot file writer (SnapshotCommon.cpp)\<close>

definition bytes_of :: "string \<Rightarrow> byte list" where
  "bytes_of s = map of_char s"

text \<open>
  The two magic tags, as \<open>isFileHeader\<close> and \<open>isFileTail\<close> spell them.
\<close>

definition MAGIC_SNAPSHOT_HEAD :: "byte list" where
  "MAGIC_SNAPSHOT_HEAD = bytes_of ''SnapHead''"

definition MAGIC_SNAPSHOT_TAIL :: "byte list" where
  "MAGIC_SNAPSHOT_TAIL = bytes_of ''SnapTail''"

definition isFileHeader :: "64 word \<Rightarrow> bool" where
  "isFileHeader magic = (magic = le_word (bytes_of ''SnapHead''))"

definition isFileTail :: "64 word \<Rightarrow> bool" where
  "isFileTail magic = (magic = le_word (bytes_of ''SnapTail''))"

datatype SnapshotVersion = V0 | V1 | V2 | V3 | None_version

text \<open>
  Modelled from the spec: the enumerators of \<open>SnapshotVersion\<close> and of
  \<open>SnapshotBatchType\<close>, the fields of \<open>SnapshotBatchHeader\<close> and its \<open>HEADER_SIZE\<close> are
  declared in Service/SnapshotCommon.h, which is not under src/. The spec (3) persists the
  version as one unsigned byte, \<open>0x03\<close> for V3, and gives the batch header as two
  little-endian 64-bit integers, 16 bytes. The spec numbers neither the other versions
  nor the batch types: the numbers given to them below only tell them apart, and no
  theorem rests on them.
\<close>

fun version_to_u8 :: "SnapshotVersion \<Rightarrow> 8 word" where
  "version_to_u8 V0 = 0"
| "version_to_u8 V1 = 1"
| "version_to_u8 V2 = 2"
| "version_to_u8 V3 = 3"
| "version_to_u8 None_version = 255"

definition HEADER_SIZE :: nat where
  "HEADER_SIZE = 16"

definition SNAPSHOT_TYPE_DATA_EPHEMERAL :: "32 word" where
  "SNAPSHOT_TYPE_DATA_EPHEMERAL = 1"

definition SNAPSHOT_TYPE_ACLMAP :: "32 word" where
  "SNAPSHOT_TYPE_ACLMAP = 7"

text \<open>
  A function that can run into undefined behaviour of C++ (a division by zero, a null or
  past-the-end dereference) returns \<open>Undefined\<close> there.
\<close>

datatype 'a outcome = Undefined | Returns 'a

definition openFileAndWriteHeader :: "SnapshotVersion \<Rightarrow> byte list" where
  "openFileAndWriteHeader version = MAGIC_SNAPSHOT_HEAD @ writeIntBinary8 (version_to_u8 version)"

definition writeTailAndClose :: "byte list \<Rightarrow> 32 word \<Rightarrow> byte list" where
  "writeTailAndClose out checksum = out @ MAGIC_SNAPSHOT_TAIL @ writeIntBinary32 checksum"

text \<open>
  \<open>saveBatchV2\<close> takes the file written so far and the batch pointer, which may be null.
  A null pointer is replaced by a freshly constructed body; \<open>fresh_type\<close> is the value of
  the \<open>type\<close> field of such a body (the struct is declared in the absent header). The
  result is the file, the batch and the pair the source returns.
\<close>

definition new_SnapshotBatchBody :: "32 word \<Rightarrow> SnapshotBatchBody" where
  "new_SnapshotBatchBody fresh_type = \<lparr>type = fresh_type, elements = []\<rparr>"

definition saveBatchV2 ::
  "32 word \<Rightarrow> byte list \<Rightarrow> SnapshotBatchBody option
     \<Rightarrow> byte list \<times> SnapshotBatchBody \<times> (nat \<times> 32 word)" where
  "saveBatchV2 fresh_type out batch =
     (let b = (case batch of None \<Rightarrow> new_SnapshotBatchBody fresh_type | Some b \<Rightarrow> b);
          str_buf = serialize b;
          data_length = (of_nat (length str_buf) :: 64 word);
          data_crc = getCRC32 str_buf;
          out1 = out @ writeIntBinary64 data_length;
          out2 = out1 @ writeIntBinary64 (ucast data_crc);
          out3 = out2 @ take (unat data_length) str_buf
      in (out3, b, (HEADER_SIZE + unat data_length, data_crc)))"

definition saveBatchAndUpdateCheckSumV2 ::
  "32 word \<Rightarrow> byte list \<Rightarrow> SnapshotBatchBody option \<Rightarrow> 32 word
     \<Rightarrow> byte list \<times> SnapshotBatchBody \<times> (nat \<times> 32 word)" where
  "saveBatchAndUpdateCheckSumV2 fresh_type out batch checksum =
     (case saveBatchV2 fresh_type out batch of
        (out1, b, (save_size, data_crc)) \<Rightarrow>
          (out1, new_SnapshotBatchBody fresh_type, (save_size, updateCheckSum checksum data_crc)))"

text \<open>
  Modelled from the spec: \<open>Coordination::write\<close> is declared in ZooKeeper/ZooKeeperIO.h,
  which is not under src/. The spec (6) gives the encoding inside a batch element:
  big-endian 32- and 64-bit integers, a string as its 32-bit big-endian length and its
  bytes, a vector as its 32-bit big-endian count and its elements.
\<close>

definition be_bytes :: "nat \<Rightarrow> 'a::len word \<Rightarrow> byte list" where
  "be_bytes n w = rev (le_bytes n w)"

definition write_i32 :: "32 word \<Rightarrow> byte list" where
  "write_i32 v = be_bytes 4 v"

definition write_i64 :: "64 word \<Rightarrow> byte list" where
  "write_i64 v = be_bytes 8 v"

definition write_string :: "byte list \<Rightarrow> byte list" where
  "write_string s = write_i32 (of_nat (length s)) @ s"

record ACL =
  permissions :: "32 word"
  scheme :: "byte list"
  id_acl :: "byte list"

definition write_ACL :: "ACL \<Rightarrow> byte list" where
  "write_ACL acl = write_i32 (permissions acl) @ write_string (scheme acl) @ write_string (id_acl acl)"

definition write_ACLs :: "ACL list \<Rightarrow> byte list" where
  "write_ACLs acls = write_i32 (of_nat (length acls)) @ concat (map write_ACL acls)"

section \<open>The domain serializers (SnapshotCommon.cpp)\<close>

text \<open>
  The state of a serializer's loop: the file written so far, the batch pointer, the
  index and the running checksum. A collection is the list of its entries in the order
  the source's range-for visits them.
\<close>

type_synonym acl_loop_state = "byte list \<times> SnapshotBatchBody option \<times> nat \<times> 32 word"

definition serializeAclsV2_step ::
  "32 word \<Rightarrow> nat \<Rightarrow> (64 word \<times> ACL list) \<Rightarrow> acl_loop_state \<Rightarrow> acl_loop_state outcome" where
  "serializeAclsV2_step fresh_type save_batch_size acl_it st =
     (case st of (out, batch, index, checksum) \<Rightarrow>
        if save_batch_size = 0 then Undefined
        else
          let (out1, batch1, checksum1) =
                (if index mod save_batch_size = 0 then
                   let (out', checksum') =
                         (if index \<noteq> 0 then
                            (case saveBatchAndUpdateCheckSumV2 fresh_type out batch checksum of
                               (o1, b1, (save_size, new_checksum)) \<Rightarrow> (o1, new_checksum))
                          else (out, checksum))
                   in (out', Some \<lparr>type = SNAPSHOT_TYPE_ACLMAP, elements = []\<rparr>, checksum')
                 else (out, batch, checksum))
          in (case batch1 of
                None \<Rightarrow> Undefined
              | Some b \<Rightarrow>
                  Returns (out1, Some (add (write_i64 (fst acl_it) @ write_ACLs (snd acl_it)) b),
                           index + 1, checksum1)))"

fun serializeAclsV2_loop ::
  "32 word \<Rightarrow> nat \<Rightarrow> (64 word \<times> ACL list) list \<Rightarrow> acl_loop_state \<Rightarrow> acl_loop_state outcome" where
  "serializeAclsV2_loop fresh_type save_batch_size [] st = Returns st"
| "serializeAclsV2_loop fresh_type save_batch_size (acl_it # rest) st =
     (case serializeAclsV2_step fresh_type save_batch_size acl_it st of
        Undefined \<Rightarrow> Undefined
      | Returns st1 \<Rightarrow> serializeAclsV2_loop fresh_type save_batch_size rest st1)"

definition serializeAclsV2 ::
  "32 word \<Rightarrow> (64 word \<times> ACL list) list \<Rightarrow> nat \<Rightarrow> SnapshotVersion \<Rightarrow> byte list outcome" where
  "serializeAclsV2 fresh_type acl_map save_batch_size version =
     (case serializeAclsV2_loop fresh_type save_batch_size acl_map
             (openFileAndWriteHeader version, None, 0, 0) of
        Undefined \<Rightarrow> Undefined
      | Returns (out, batch, index, checksum) \<Rightarrow>
          (case saveBatchAndUpdateCheckSumV2 fresh_type out batch checksum of
             (out1, b1, (save_size, new_checksum)) \<Rightarrow>
               Returns (writeTailAndClose out1 new_checksum)))"

text \<open>
  \<open>serializeEphemeralsV2\<close> returns 0 without opening a file when the map is empty, and
  otherwise 1 and the file it wrote. An entry is a session id and its set of paths, in
  the order the inner range-for visits them.
\<close>

type_synonym eph_loop_state = "byte list \<times> SnapshotBatchBody option \<times> nat"

definition write_ephemeral :: "(64 word \<times> byte list list) \<Rightarrow> byte list" where
  "write_ephemeral ephemeral_it =
     write_i64 (fst ephemeral_it)
     @ write_i64 (of_nat (length (snd ephemeral_it)))
     @ concat (map write_string (snd ephemeral_it))"

definition serializeEphemeralsV2_step ::
  "32 word \<Rightarrow> nat \<Rightarrow> (64 word \<times> byte list list) \<Rightarrow> eph_loop_state \<Rightarrow> eph_loop_state outcome" where
  "serializeEphemeralsV2_step fresh_type save_batch_size ephemeral_it st =
     (case st of (out, batch, index) \<Rightarrow>
        if save_batch_size = 0 then Undefined
        else
          let (out1, batch1) =
                (if index mod save_batch_size = 0 then
                   let out' = (if index \<noteq> 0 then fst (saveBatchV2 fresh_type out batch) else out)
                   in (out', Some \<lparr>type = SNAPSHOT_TYPE_DATA_EPHEMERAL, elements = []\<rparr>)
                 else (out, batch))
          in (case batch1 of
                None \<Rightarrow> Undefined
              | Some b \<Rightarrow> Returns (out1, Some (add (write_ephemeral ephemeral_it) b), index + 1)))"

fun serializeEphemeralsV2_loop ::
  "32 word \<Rightarrow> nat \<Rightarrow> (64 word \<times> byte list list) list \<Rightarrow> eph_loop_state \<Rightarrow> eph_loop_state outcome" where
  "serializeEphemeralsV2_loop fresh_type save_batch_size [] st = Returns st"
| "serializeEphemeralsV2_loop fresh_type save_batch_size (ephemeral_it # rest) st =
     (case serializeEphemeralsV2_step fresh_type save_batch_size ephemeral_it st of
        Undefined \<Rightarrow> Undefined
      | Returns st1 \<Rightarrow> serializeEphemeralsV2_loop fresh_type save_batch_size rest st1)"

definition serializeEphemeralsV2 ::
  "32 word \<Rightarrow> (64 word \<times> byte list list) list \<Rightarrow> nat \<Rightarrow> (nat \<times> byte list option) outcome" where
  "serializeEphemeralsV2 fresh_type ephemerals save_batch_size =
     (if ephemerals = [] then Returns (0, None)
      else
        (case serializeEphemeralsV2_loop fresh_type save_batch_size ephemerals ([], None, 0) of
           Undefined \<Rightarrow> Undefined
         | Returns (out, batch, index) \<Rightarrow>
             Returns (1, Some (fst (saveBatchV2 fresh_type out batch)))))"

section \<open>The commit processor (SvsKeeperCommitProcessor.h)\<close>

text \<open>
  A request carries its session, its xid and whether it is a read. A response is either
  the one the store pushes when it processes a request, or one the commit processor makes
  itself with \<open>makeResponse\<close>, setting xid, zxid and error.

  Modelled from the spec: \<open>SvsKeeperStorage::processRequest\<close> is not under src/. By the
  spec (4.6) applying a request to the store emits its response; \<open>StorageResponse r\<close> is
  that response, for the session and with the xid of \<open>r\<close>.
\<close>

record RequestForSession =
  session_id :: int
  xid :: int
  isReadRequest :: bool

datatype Error = ZOPERATIONTIMEOUT | ZCONNECTIONLOSS | ZSESSIONEXPIRED

datatype cmd_result_code =
  OK | CANCELLED | TIMEOUT | NOT_LEADER | BAD_REQUEST | SERVER_NOT_FOUND | TERM_MISMATCH | FAILED

datatype ResponseForSession =
    StorageResponse RequestForSession
  | MadeResponse int int int Error

fun response_session_id :: "ResponseForSession \<Rightarrow> int" where
  "response_session_id (StorageResponse r) = session_id r"
| "response_session_id (MadeResponse s x z e) = s"

fun response_xid :: "ResponseForSession \<Rightarrow> int" where
  "response_xid (StorageResponse r) = xid r"
| "response_xid (MadeResponse s x z e) = x"

text \<open>
  The three \<open>std::unordered_map\<close>s are association lists with distinct keys, in the order
  the map's iterators visit the entries. C++ leaves that order unspecified; a new key is
  put last here. \<open>find_map\<close> is \<open>find\<close>, \<open>subscript\<close> is \<open>operator[]\<close>, which inserts
  an empty vector under a missing key.
\<close>

type_synonym RequestForSessions = "RequestForSession list"
type_synonym session_map = "(int \<times> RequestForSessions) list"

definition find_map :: "session_map \<Rightarrow> int \<Rightarrow> RequestForSessions option" where
  "find_map m k = map_of m k"

definition subscript :: "session_map \<Rightarrow> int \<Rightarrow> session_map" where
  "subscript m k = (case map_of m k of None \<Rightarrow> m @ [(k, [])] | Some v \<Rightarrow> m)"

definition requests_of :: "session_map \<Rightarrow> int \<Rightarrow> RequestForSessions" where
  "requests_of m k = (case map_of m k of None \<Rightarrow> [] | Some v \<Rightarrow> v)"

record SvsKeeperCommitProcessor =
  requests_queue :: "RequestForSession list"
  committed_queue :: "RequestForSession list"
  errors :: "((int \<times> int) \<times> (bool \<times> cmd_result_code)) list"
  pending_requests :: session_map
  pending_write_requests :: session_map
  responses_queue :: "ResponseForSession list"
  shutdown_called :: bool

definition initial :: SvsKeeperCommitProcessor where
  "initial = \<lparr>requests_queue = [], committed_queue = [], errors = [], pending_requests = [],
     pending_write_requests = [], responses_queue = [], shutdown_called = False\<rparr>"

subsection \<open>The producers\<close>

text \<open>
  The input queue and the committed queue are lists, pushed at the end and popped at the
  front. The bound of the input queue (a full queue makes the producer wait) is not
  modelled. \<open>errors.emplace\<close> leaves an entry that is already there.
\<close>

definition processRequest :: "RequestForSession \<Rightarrow> SvsKeeperCommitProcessor \<Rightarrow> SvsKeeperCommitProcessor" where
  "processRequest request_for_session s =
     (if \<not> shutdown_called s
      then s\<lparr>requests_queue := requests_queue s @ [request_for_session]\<rparr>
      else s)"

definition commit :: "RequestForSession \<Rightarrow> SvsKeeperCommitProcessor \<Rightarrow> SvsKeeperCommitProcessor" where
  "commit request s =
     (if \<not> shutdown_called s
      then s\<lparr>committed_queue := committed_queue s @ [request]\<rparr>
      else s)"

definition onError ::
  "int \<Rightarrow> int \<Rightarrow> bool \<Rightarrow> cmd_result_code \<Rightarrow> SvsKeeperCommitProcessor \<Rightarrow> SvsKeeperCommitProcessor" where
  "onError sid x accepted error_code s =
     (if \<not> shutdown_called s
      then (case map_of (errors s) (sid, x) of
              None \<Rightarrow> s\<lparr>errors := errors s @ [((sid, x), (accepted, error_code))]\<rparr>
            | Some v \<Rightarrow> s)
      else s)"

subsection \<open>One iteration of run3\<close>

text \<open>
  The body of the \<open>try\<close> block either runs to its end or throws; the state at the throw
  is what the \<open>catch\<close> continues with. \<open>Undefined\<close> stands for a dereference of a
  past-the-end iterator. The \<open>LOG_TRACE\<close> statements are left out: the worker is
  modelled with trace logging off. The wait on the condition variable is left out as
  well: an iteration that finds nothing to do changes nothing.
\<close>

datatype 'a flow = Normal 'a | Throws 'a

fun after_catch :: "'a flow \<Rightarrow> 'a" where
  "after_catch (Normal s) = s"
| "after_catch (Throws s) = s"

definition and_then :: "'a flow outcome \<Rightarrow> ('a \<Rightarrow> 'a flow outcome) \<Rightarrow> 'a flow outcome" where
  "and_then r f =
     (case r of
        Undefined \<Rightarrow> Undefined
      | Returns (Throws s) \<Rightarrow> Returns (Throws s)
      | Returns (Normal s) \<Rightarrow> f s)"

text \<open>
  The two inner loops of the error phase: find the first request with the xid, copy it
  and erase it.
\<close>

fun take_request :: "int \<Rightarrow> RequestForSessions \<Rightarrow> RequestForSession option \<times> RequestForSessions" where
  "take_request x [] = (None, [])"
| "take_request x (r # rs) =
     (if xid r = x then (Some r, rs)
      else (case take_request x rs of (found, rest) \<Rightarrow> (found, r # rest)))"

definition commit_error :: "cmd_result_code \<Rightarrow> Error" where
  "commit_error error_code = (if error_code = TIMEOUT then ZOPERATIONTIMEOUT else ZCONNECTIONLOSS)"

definition drain_errors :: "SvsKeeperCommitProcessor \<Rightarrow> SvsKeeperCommitProcessor flow outcome" where
  "drain_errors s =
     (case errors s of
        [] \<Rightarrow> Returns (Normal s)
      | ((sid, x), (accepted, error_code)) # rest \<Rightarrow>
          (case find_map (pending_requests s) sid of
             None \<Rightarrow> Undefined
           | Some requests \<Rightarrow>
               (case find_map (pending_write_requests s) sid of
                  None \<Rightarrow> Undefined
                | Some w_requests \<Rightarrow>
                    let (request, requests1) = take_request x requests;
                        (w_request, w_requests1) = take_request x w_requests;
                        s1 = s\<lparr>pending_requests := AList.update sid requests1 (pending_requests s),
                               pending_write_requests :=
                                 AList.update sid w_requests1 (pending_write_requests s)\<rparr>
                    in (case request of
                          Some r \<Rightarrow>
                            Returns (Throws (s1\<lparr>
                              responses_queue := responses_queue s1
                                @ [MadeResponse (session_id r) (xid r) 0 (commit_error error_code)],
                              errors := rest\<rparr>))
                        | None \<Rightarrow> Returns (Throws s1)))))"

text \<open>The input phase: pop \<open>request_size\<close> requests into the pending maps.\<close>

definition push_back :: "int \<Rightarrow> RequestForSession \<Rightarrow> session_map \<Rightarrow> session_map" where
  "push_back k r m = AList.update k (requests_of m k @ [r]) m"

fun drain_requests :: "nat \<Rightarrow> SvsKeeperCommitProcessor \<Rightarrow> SvsKeeperCommitProcessor" where
  "drain_requests 0 s = s"
| "drain_requests (Suc n) s =
     (case requests_queue s of
        [] \<Rightarrow> drain_requests n s
      | request # queue \<Rightarrow>
          drain_requests n (s\<lparr>
            requests_queue := queue,
            pending_requests := push_back (session_id request) request (pending_requests s),
            pending_write_requests :=
              (if \<not> isReadRequest request
               then push_back (session_id request) request (pending_write_requests s)
               else pending_write_requests s)\<rparr>))"

text \<open>
  The read phase. The inner loop walks the pending vector of one session; it carries the
  map of pending writes (which \<open>operator[]\<close> may extend) and the response queue.
\<close>

fun serve_session ::
  "int \<Rightarrow> RequestForSessions \<Rightarrow> session_map \<times> ResponseForSession list
     \<Rightarrow> (RequestForSessions \<times> session_map \<times> ResponseForSession list) flow" where
  "serve_session current_session_id [] (pw, out) = Normal ([], pw, out)"
| "serve_session current_session_id (r # requests) (pw, out) =
     (let pw1 = subscript pw current_session_id;
          w = requests_of pw1 current_session_id
      in if w = [] \<or> xid r < xid (hd w) then
           if \<not> isReadRequest r then Throws (r # requests, pw1, out)
           else serve_session current_session_id requests (pw1, out @ [StorageResponse r])
         else Normal (r # requests, pw1, out))"

fun serve_sessions ::
  "session_map \<Rightarrow> session_map \<times> ResponseForSession list
     \<Rightarrow> (session_map \<times> session_map \<times> ResponseForSession list) flow" where
  "serve_sessions [] (pw, out) = Normal ([], pw, out)"
| "serve_sessions ((current_session_id, requests) # rest) (pw, out) =
     (case serve_session current_session_id requests (pw, out) of
        Throws (requests1, pw1, out1) \<Rightarrow> Throws ((current_session_id, requests1) # rest, pw1, out1)
      | Normal (requests1, pw1, out1) \<Rightarrow>
          (let kept = (if requests1 = [] then [] else [(current_session_id, requests1)])
           in case serve_sessions rest (pw1, out1) of
                Throws (rest1, pw2, out2) \<Rightarrow> Throws (kept @ rest1, pw2, out2)
              | Normal (rest1, pw2, out2) \<Rightarrow> Normal (kept @ rest1, pw2, out2)))"

definition serve_reads :: "SvsKeeperCommitProcessor \<Rightarrow> SvsKeeperCommitProcessor flow outcome" where
  "serve_reads s =
     (case serve_sessions (pending_requests s) (pending_write_requests s, responses_queue s) of
        Throws (p, pw, out) \<Rightarrow>
          Returns (Throws (s\<lparr>pending_requests := p, pending_write_requests := pw,
                             responses_queue := out\<rparr>))
      | Normal (p, pw, out) \<Rightarrow>
          Returns (Normal (s\<lparr>pending_requests := p, pending_write_requests := pw,
                             responses_queue := out\<rparr>)))"

text \<open>The commit phase: pop \<open>committed_request_size\<close> committed requests.\<close>

definition apply_committed ::
  "RequestForSession \<Rightarrow> SvsKeeperCommitProcessor \<Rightarrow> SvsKeeperCommitProcessor flow outcome" where
  "apply_committed committed_request s =
     (let sid = session_id committed_request;
          pw1 = subscript (pending_write_requests s) sid;
          w = requests_of pw1 sid;
          s1 = s\<lparr>pending_write_requests := pw1\<rparr>
      in if w = [] then
           Returns (Normal (s1\<lparr>responses_queue :=
                                responses_queue s1 @ [StorageResponse committed_request]\<rparr>))
         else if xid (hd w) \<noteq> xid committed_request then Returns (Throws s1)
         else
           let p1 = subscript (pending_requests s1) sid;
               p = requests_of p1 sid;
               s2 = s1\<lparr>pending_requests := p1\<rparr>
           in if p = [] then Undefined
              else if xid (hd p) \<noteq> xid committed_request then Returns (Throws s2)
              else
                Returns (Normal (s2\<lparr>
                  responses_queue := responses_queue s2 @ [StorageResponse committed_request],
                  pending_write_requests :=
                    (if tl w = [] then AList.delete sid pw1 else AList.update sid (tl w) pw1),
                  pending_requests :=
                    (if tl p = [] then AList.delete sid p1 else AList.update sid (tl p) p1)\<rparr>)))"

fun apply_commits :: "nat \<Rightarrow> SvsKeeperCommitProcessor \<Rightarrow> SvsKeeperCommitProcessor flow outcome" where
  "apply_commits 0 s = Returns (Normal s)"
| "apply_commits (Suc n) s =
     (case committed_queue s of
        [] \<Rightarrow> apply_commits n s
      | committed_request # queue \<Rightarrow>
          and_then (apply_committed committed_request (s\<lparr>committed_queue := queue\<rparr>))
            (apply_commits n))"

text \<open>
  The body of the \<open>try\<close> block after the wait, and the iteration with its \<open>catch\<close>. When
  \<open>shutdown_called\<close> is set the loop returns and the state is left as it is.
\<close>

definition run3_body :: "SvsKeeperCommitProcessor \<Rightarrow> SvsKeeperCommitProcessor flow outcome" where
  "run3_body s =
     and_then (drain_errors s) (\<lambda>s1.
       let committed_request_size = length (committed_queue s1);
           request_size = length (requests_queue s1)
       in and_then (serve_reads (drain_requests request_size s1))
            (apply_commits committed_request_size))"

definition run3_iteration :: "SvsKeeperCommitProcessor \<Rightarrow> SvsKeeperCommitProcessor outcome" where
  "run3_iteration s =
     (if shutdown_called s then Returns s
      else (case run3_body s of
              Undefined \<Rightarrow> Undefined
            | Returns f \<Rightarrow> Returns (after_catch f)))"

subsection \<open>Shutdown\<close>

text \<open>
  \<open>shutdown\<close> sets the flag, joins the worker, which has left its loop, and then pops the
  input queue until it is empty, answering each request.
\<close>

fun expire_requests :: "RequestForSession list \<Rightarrow> ResponseForSession list" where
  "expire_requests [] = []"
| "expire_requests (request_for_session # queue) =
     MadeResponse (session_id request_for_session) (xid request_for_session) 0 ZSESSIONEXPIRED
       # expire_requests queue"

definition shutdown :: "SvsKeeperCommitProcessor \<Rightarrow> SvsKeeperCommitProcessor" where
  "shutdown s =
     (if shutdown_called s then s
      else s\<lparr>shutdown_called := True,
             responses_queue := responses_queue s @ expire_requests (requests_queue s),
             requests_queue := []\<rparr>)"

subsection \<open>Runs of the commit processor\<close>

text \<open>
  The producers and the worker run in different threads. A run is an interleaving of
  their steps: a call of \<open>processRequest\<close>, of \<open>commit\<close> or of \<open>onError\<close>, or one
  iteration of the worker. The iteration samples the sizes of both queues before it pops
  from either, and a push only appends, so a push during an iteration is a push after it;
  \<open>errors\<close> is read under its mutex at the start of the iteration.
\<close>

datatype event =
    ProcessRequest RequestForSession
  | Commit RequestForSession
  | OnError int int bool cmd_result_code
  | Iterate

fun step :: "event \<Rightarrow> SvsKeeperCommitProcessor \<Rightarrow> SvsKeeperCommitProcessor outcome" where
  "step (ProcessRequest r) s = Returns (processRequest r s)"
| "step (Commit c) s = Returns (commit c s)"
| "step (OnError sid x accepted error_code) s = Returns (onError sid x accepted error_code s)"
| "step Iterate s = run3_iteration s"

fun run :: "event list \<Rightarrow> SvsKeeperCommitProcessor \<Rightarrow> SvsKeeperCommitProcessor outcome" where
  "run [] s = Returns s"
| "run (e # es) s = (case step e s of Undefined \<Rightarrow> Undefined | Returns s1 \<Rightarrow> run es s1)"

text \<open>
  What a run is observed by: the requests the store has processed, in order; the part of
  a list of requests or responses that belongs to one session; the writes of a list.
\<close>

fun applied_requests :: "ResponseForSession list \<Rightarrow> RequestForSession list" where
  "applied_requests [] = []"
| "applied_requests (StorageResponse r # out) = r # applied_requests out"
| "applied_requests (MadeResponse s x z e # out) = applied_requests out"

definition of_session :: "int \<Rightarrow> RequestForSession list \<Rightarrow> RequestForSession list" where
  "of_session sid rs = filter (\<lambda>r. session_id r = sid) rs"

definition responses_of_session :: "int \<Rightarrow> ResponseForSession list \<Rightarrow> ResponseForSession list" where
  "responses_of_session sid out = filter (\<lambda>resp. response_session_id resp = sid) out"

definition writes :: "RequestForSession list \<Rightarrow> RequestForSession list" where
  "writes rs = filter (\<lambda>r. \<not> isReadRequest r) rs"

fun enqueued :: "event list \<Rightarrow> RequestForSession list" where
  "enqueued [] = []"
| "enqueued (ProcessRequest r # es) = r # enqueued es"
| "enqueued (e # es) = enqueued es"

fun committed :: "event list \<Rightarrow> RequestForSession list" where
  "committed [] = []"
| "committed (Commit c # es) = c # committed es"
| "committed (e # es) = committed es"

text \<open>
  The environment one session and the consensus layer make for the processor, given the
  requests enqueued and the commits delivered before: the session \<open>sid\<close> submits its
  requests with strictly increasing xids, and a commit delivered for that session is the
  commit of a write that was enqueued here, the session's commits coming in xid order.
  Nothing is asked of the other sessions: their requests and their commits may be
  anything, the commit of a request of another server's session for example. No error is
  reported: a run with a call of \<open>onError\<close> is outside this environment.
\<close>

definition later_in_session :: "RequestForSession \<Rightarrow> RequestForSession list \<Rightarrow> bool" where
  "later_in_session r earlier =
     list_all (\<lambda>e. session_id e \<noteq> session_id r \<or> xid e < xid r) earlier"

fun well_behaved ::
  "int \<Rightarrow> RequestForSession list \<Rightarrow> RequestForSession list \<Rightarrow> event list \<Rightarrow> bool" where
  "well_behaved sid E K [] = True"
| "well_behaved sid E K (ProcessRequest r # es) =
     ((session_id r \<noteq> sid \<or> later_in_session r E) \<and> well_behaved sid (E @ [r]) K es)"
| "well_behaved sid E K (Commit c # es) =
     ((session_id c \<noteq> sid \<or> (\<not> isReadRequest c \<and> c \<in> set E \<and> later_in_session c K))
      \<and> well_behaved sid E (K @ [c]) es)"
| "well_behaved sid E K (OnError k x accepted error_code # es) = False"
| "well_behaved sid E K (Iterate # es) = well_behaved sid E K es"





text \<open>
  Pending maps that agree with each other: for every session of the pending map, the
  pending writes are the writes among the pending requests, in the same order, and the
  pending requests have strictly increasing xids.
\<close>

definition pending_consistent :: "session_map \<Rightarrow> session_map \<Rightarrow> bool" where
  "pending_consistent p pw =
     list_all (\<lambda>(sid, rs). requests_of pw sid = writes rs \<and> sorted_wrt (<) (map xid rs)) p"

text \<open>
  What holds of every state of a run in that environment, with \<open>E\<close> the requests
  enqueued and \<open>K\<close> the commits delivered so far: no error entry and no shutdown; every
  response comes from the store; in every session the pending requests are requests of
  that session, and the pending writes are writes, found in that order among the pending
  requests; for the session \<open>sid\<close>, the requests enqueued are those applied, then those
  pending, then those still in the input queue; its pending writes are the writes of its
  pending requests; its commits waiting in the committed queue are distinct, delivered
  commits of writes that are pending or still in the input queue; and an applied write of
  the session was committed.
\<close>

definition session_order ::
  "int \<Rightarrow> RequestForSession list \<Rightarrow> RequestForSession list \<Rightarrow> SvsKeeperCommitProcessor \<Rightarrow> bool" where
  "session_order sid E K s =
     (errors s = [] \<and> \<not> shutdown_called s
      \<and> distinct (map fst (pending_requests s))
      \<and> distinct (map fst (pending_write_requests s))
      \<and> responses_queue s = map StorageResponse (applied_requests (responses_queue s))
      \<and> (\<forall>k. \<forall>r \<in> set (requests_of (pending_requests s) k). session_id r = k)
      \<and> (\<forall>k. subseq (requests_of (pending_write_requests s) k) (requests_of (pending_requests s) k))
      \<and> (\<forall>k. \<forall>r \<in> set (requests_of (pending_write_requests s) k). \<not> isReadRequest r)
      \<and> of_session sid E =
            of_session sid (applied_requests (responses_queue s))
            @ requests_of (pending_requests s) sid
            @ of_session sid (requests_queue s)
      \<and> requests_of (pending_write_requests s) sid = writes (requests_of (pending_requests s) sid)
      \<and> sorted_wrt (<) (map xid (of_session sid E))
      \<and> sorted_wrt (<) (map xid (of_session sid K))
      \<and> distinct (of_session sid (committed_queue s))
      \<and> (\<forall>c \<in> set (of_session sid (committed_queue s)).
            \<not> isReadRequest c \<and> c \<in> set K
            \<and> (c \<in> set (requests_of (pending_requests s) sid) \<or> c \<in> set (requests_queue s)))
      \<and> (\<forall>a \<in> set (of_session sid (applied_requests (responses_queue s))).
            isReadRequest a \<or> a \<in> set K))"

section \<open>Properties of the batch body codec\<close>

lemma le_word_le_bytes_32: "le_word (le_bytes 4 (w :: 32 word)) = w"
proof (rule bit_word_eqI)
  fix n assume "n < LENGTH(32)"
  then have n: "n < 32" by simp
  have four: "(4::nat) = Suc (Suc (Suc (Suc 0)))" by simp
  consider "n < 8" | "8 \<le> n" "n < 16" | "16 \<le> n" "n < 24" | "24 \<le> n" "n < 32"
    using n by linarith
  then show "bit (le_word (le_bytes 4 w) :: 32 word) n = bit w n"
    unfolding four by cases (auto simp add: bit_simps)
qed

lemma length_le_bytes: "length (le_bytes n w) = n"
  by (induction n arbitrary: w) simp_all

lemma readIntBinary32_write:
  "readIntBinary32 (writeIntBinary32 w @ rest) = Inr (w, rest)"
  by (simp add: readIntBinary32_def readStrict_def writeIntBinary32_def length_le_bytes
      le_word_le_bytes_32)

lemma sint_of_nat_32:
  assumes "n < 2 ^ 31"
  shows "sint (of_nat n :: 32 word) = int n"
proof -
  have "sint (of_nat n :: 32 word) = signed_take_bit 31 (int n)"
    by (simp add: signed_of_nat)
  also have "\<dots> = int n"
    by (rule signed_take_bit_int_eq_self) (use assms in auto)
  finally show ?thesis .
qed

lemma parse_elements_serialize:
  assumes "\<forall>e \<in> set es. length e < 2 ^ 31"
  shows "parse_elements (length es) (concat (map serialize_element es) @ rest) = Inr (es, rest)"
  using assms
proof (induction es)
  case Nil
  then show ?case by simp
next
  case (Cons e es)
  have e: "length e < 2 ^ 31" using Cons.prems by simp
  have tail: "parse_elements (length es) (concat (map serialize_element es) @ rest) = Inr (es, rest)"
    using Cons by simp
  have rd: "readIntBinary32 (serialize_element e @ concat (map serialize_element es) @ rest)
      = Inr (of_nat (length e), e @ concat (map serialize_element es) @ rest)"
    by (simp add: serialize_element_def readIntBinary32_write)
  show ?case
    using e by (simp add: rd sint_of_nat_32 readStrict_def tail)
qed

text \<open>
  C7. For every batch body whose element count and element sizes fit \<open>int32_t\<close> (below
  \<open>2^31\<close>), parsing the serialized body gives the same body back: the same type tag
  and the same elements in the same order.
\<close>

theorem parse_serialize_roundtrip:
  assumes "length (elements b) < 2 ^ 31"
    and "\<forall>e \<in> set (elements b). length e < 2 ^ 31"
  shows "parse (serialize b) = Inr b"
proof -
  have "parse_elements (length (elements b)) (concat (map serialize_element (elements b)) @ [])
      = Inr (elements b, [])"
    using assms(2) by (rule parse_elements_serialize)
  then show ?thesis
    using assms(1) by (simp add: parse_def serialize_def readIntBinary32_write sint_of_nat_32)
qed

theorem parse_serialize_roundtrip_witness:
  "parse (serialize \<lparr>type = 7, elements = [[1, 2, 3], [], [255]]\<rparr>)
     = Inr \<lparr>type = 7, elements = [[1, 2, 3], [], [255]]\<rparr>"
  using parse_serialize_roundtrip [of "\<lparr>type = 7, elements = [[1, 2, 3], [], [255]]\<rparr>"]
  by simp

lemma length_exceeds_input_fails:
  "length_exceeds_input n inp \<Longrightarrow> parse_elements n inp = Inl UnexpectedEof"
proof (induction n arbitrary: inp)
  case 0
  then show ?case by simp
next
  case (Suc n)
  show ?case
  proof (cases "length inp < 4")
    case True
    then show ?thesis by (simp add: readIntBinary32_def readStrict_def)
  next
    case False
    define l where "l = sint (le_word (take 4 inp) :: 32 word)"
    have rd: "readIntBinary32 inp = Inr (le_word (take 4 inp), drop 4 inp)"
      using False by (simp add: readIntBinary32_def readStrict_def)
    from Suc.prems False
    consider "int (length inp) - 4 < l" | "0 \<le> l" "\<not> int (length inp) - 4 < l"
      "length_exceeds_input n (drop (4 + nat l) inp)"
      by (auto simp add: l_def Let_def)
    then show ?thesis
    proof cases
      case 1
      then have "0 \<le> l" using False by linarith
      moreover have "length inp - 4 < nat l" using 1 False by linarith
      ultimately show ?thesis
        using rd by (simp add: l_def [symmetric] readStrict_def)
    next
      case 2
      have "parse_elements n (drop (4 + nat l) inp) = Inl UnexpectedEof"
        using 2(3) by (rule Suc.IH)
      moreover have "\<not> length inp - 4 < nat l" using 2 False by linarith
      ultimately show ?thesis
        using rd 2(1) by (simp add: l_def [symmetric] readStrict_def add.commute)
    qed
  qed
qed

text \<open>
  C8. On every input where the type and count do not fit, or where, walking the elements,
  a length prefix or the bytes it announces reach past the end of the remaining input,
  \<open>parse\<close> returns no batch body: the strict read throws.
\<close>

theorem parse_reads_past_end_fails:
  assumes "reads_past_end data"
  shows "parse data = Inl UnexpectedEof"
proof (cases "length data < 8")
  case True
  then show ?thesis
    by (cases "length data < 4") (auto simp add: parse_def readIntBinary32_def readStrict_def)
next
  case False
  define c where "c = sint (le_word (take 4 (drop 4 data)) :: 32 word)"
  have c: "0 < c" and ex: "length_exceeds_input (nat c) (drop 8 data)"
    using assms False by (auto simp add: reads_past_end_def c_def Let_def)
  have "parse_elements (nat c) (drop 8 data) = Inl UnexpectedEof"
    using ex by (rule length_exceeds_input_fails)
  then show ?thesis
    using False c by (simp add: parse_def readIntBinary32_def readStrict_def c_def [symmetric])
qed

theorem parse_reads_past_end_fails_witness:
  "reads_past_end [7, 0, 0, 0, 1, 0, 0, 0, 5, 0, 0, 0, 1, 2]
   \<and> parse [7, 0, 0, 0, 1, 0, 0, 0, 5, 0, 0, 0, 1, 2] = Inl UnexpectedEof"
proof -
  have h: "reads_past_end [7, 0, 0, 0, 1, 0, 0, 0, 5, 0, 0, 0, 1, 2]"
    by (simp add: reads_past_end_def)
  show ?thesis
    using h parse_reads_past_end_fails [OF h] by simp
qed

section \<open>Properties of the checksum and of the serializers\<close>

lemma le_bytes_numeral:
  "le_bytes (numeral k) w = ucast w # le_bytes (pred_numeral k) (drop_bit 8 w)"
  by (simp add: numeral_eq_Suc)

lemma updateCheckSum_eq:
  "updateCheckSum csum data_crc = getCRC32 (writeIntBinary32 csum @ writeIntBinary32 data_crc)"
  by (simp add: updateCheckSum_def store_u32_def writeIntBinary32_def length_le_bytes)

text \<open>
  C9. \<open>updateCheckSum csum data_crc\<close> is the CRC-32 of the 8 bytes made of \<open>csum\<close> and
  then \<open>data_crc\<close>, each as a little-endian \<open>u32\<close>. The running checksum starts at 0:
  the tail of a file with one batch holds the checksum folded from 0 and the CRC of that
  batch.
\<close>

theorem updateCheckSum_crc32:
  "updateCheckSum csum data_crc = getCRC32 (writeIntBinary32 csum @ writeIntBinary32 data_crc)
   \<and> (let body = serialize \<lparr>type = SNAPSHOT_TYPE_ACLMAP,
                      elements = [write_i64 (fst acl_it) @ write_ACLs (snd acl_it)]\<rparr>
      in serializeAclsV2 fresh_type [acl_it] (Suc k) version =
         Returns (MAGIC_SNAPSHOT_HEAD @ writeIntBinary8 (version_to_u8 version)
           @ writeIntBinary64 (of_nat (length body))
           @ writeIntBinary64 (ucast (getCRC32 body))
           @ take (unat (of_nat (length body) :: 64 word)) body
           @ MAGIC_SNAPSHOT_TAIL
           @ writeIntBinary32 (getCRC32 (writeIntBinary32 0 @ writeIntBinary32 (getCRC32 body)))))"
proof -
  have "updateCheckSum csum data_crc = getCRC32 (le_bytes 4 csum @ le_bytes 4 data_crc)"
    by (simp add: updateCheckSum_def store_u32_def length_le_bytes)
  then show ?thesis
    by (simp add: serializeAclsV2_def serializeAclsV2_step_def saveBatchAndUpdateCheckSumV2_def
        saveBatchV2_def Let_def new_SnapshotBatchBody_def openFileAndWriteHeader_def
        writeTailAndClose_def add_def updateCheckSum_eq writeIntBinary32_def)
qed

theorem updateCheckSum_crc32_witness:
  "updateCheckSum 0 0 = getCRC32 (writeIntBinary32 0 @ writeIntBinary32 0)"
  using updateCheckSum_crc32 [of 0 0 "(0, [])" 0 0 V3] by simp

lemma serializeAclsV2_Nil:
  "serializeAclsV2 fresh_type [] save_batch_size version =
     Returns (MAGIC_SNAPSHOT_HEAD @ writeIntBinary8 (version_to_u8 version)
       @ writeIntBinary64 8
       @ writeIntBinary64 (ucast (getCRC32 (writeIntBinary32 fresh_type @ writeIntBinary32 0)))
       @ (writeIntBinary32 fresh_type @ writeIntBinary32 0)
       @ MAGIC_SNAPSHOT_TAIL
       @ writeIntBinary32
           (updateCheckSum 0 (getCRC32 (writeIntBinary32 fresh_type @ writeIntBinary32 0))))"
  by (simp add: serializeAclsV2_def saveBatchAndUpdateCheckSumV2_def saveBatchV2_def Let_def
      new_SnapshotBatchBody_def serialize_def openFileAndWriteHeader_def writeTailAndClose_def
      writeIntBinary32_def length_le_bytes)

text \<open>
  C2, as the claim states it, fails: the file written for an empty ACL map is not the 21
  bytes \<open>SnapHead\<close>, \<open>0x03\<close>, \<open>SnapTail\<close>, \<open>0x00000000\<close>. The final flush always writes
  a batch, and the body of a batch with no element is its type and its count, 8 bytes.
  The type field of the body constructed for the null pointer is taken as 0 here; the
  length of the file does not depend on it.
\<close>

theorem serializeAclsV2_empty_counterexample:
  "serializeAclsV2 0 [] 10 V3
     \<noteq> Returns (MAGIC_SNAPSHOT_HEAD @ [3] @ MAGIC_SNAPSHOT_TAIL @ [0, 0, 0, 0])"
proof
  assume "serializeAclsV2 0 [] 10 V3
     = Returns (MAGIC_SNAPSHOT_HEAD @ [3] @ MAGIC_SNAPSHOT_TAIL @ [0, 0, 0, 0])"
  then have "length (MAGIC_SNAPSHOT_HEAD @ writeIntBinary8 (version_to_u8 V3)
       @ writeIntBinary64 8
       @ writeIntBinary64 (ucast (getCRC32 (writeIntBinary32 0 @ writeIntBinary32 0)))
       @ (writeIntBinary32 0 @ writeIntBinary32 0)
       @ MAGIC_SNAPSHOT_TAIL
       @ writeIntBinary32 (updateCheckSum 0 (getCRC32 (writeIntBinary32 0 @ writeIntBinary32 0))))
     = length (MAGIC_SNAPSHOT_HEAD @ [3] @ MAGIC_SNAPSHOT_TAIL @ [0, 0, 0, 0])"
    unfolding serializeAclsV2_Nil by simp
  then show False
    by (simp add: writeIntBinary8_def writeIntBinary64_def writeIntBinary32_def length_le_bytes)
qed

text \<open>
  C2, amended. Flushing a null batch writes a batch header with \<open>data_length = 8\<close> and
  the CRC of the 8-byte body (the type and the count 0), then that body. The file written
  for an empty ACL map is \<open>SnapHead\<close>, the version byte, that one batch, \<open>SnapTail\<close> and
  the checksum folded from 0 and the CRC of the batch.
\<close>

theorem serializeAclsV2_empty_file:
  "(let body = writeIntBinary32 fresh_type @ writeIntBinary32 0 in
      saveBatchV2 fresh_type out None =
        (out @ writeIntBinary64 8 @ writeIntBinary64 (ucast (getCRC32 body)) @ body,
         new_SnapshotBatchBody fresh_type, (HEADER_SIZE + 8, getCRC32 body))
      \<and> serializeAclsV2 fresh_type [] save_batch_size version =
          Returns (MAGIC_SNAPSHOT_HEAD @ writeIntBinary8 (version_to_u8 version)
            @ writeIntBinary64 8 @ writeIntBinary64 (ucast (getCRC32 body)) @ body
            @ MAGIC_SNAPSHOT_TAIL @ writeIntBinary32 (updateCheckSum 0 (getCRC32 body))))"
  by (simp add: serializeAclsV2_def saveBatchAndUpdateCheckSumV2_def saveBatchV2_def Let_def
      new_SnapshotBatchBody_def serialize_def openFileAndWriteHeader_def writeTailAndClose_def
      writeIntBinary32_def length_le_bytes)

theorem serializeAclsV2_empty_file_witness:
  "serializeAclsV2 0 [] 10 V3 =
     Returns (MAGIC_SNAPSHOT_HEAD @ [3]
       @ [8, 0, 0, 0, 0, 0, 0, 0]
       @ writeIntBinary64 (ucast (getCRC32 [0, 0, 0, 0, 0, 0, 0, 0]))
       @ [0, 0, 0, 0, 0, 0, 0, 0]
       @ MAGIC_SNAPSHOT_TAIL
       @ writeIntBinary32 (updateCheckSum 0 (getCRC32 [0, 0, 0, 0, 0, 0, 0, 0])))"
  using serializeAclsV2_empty_file [of 0 "[]" 10 V3]
  by (simp add: Let_def writeIntBinary8_def writeIntBinary32_def writeIntBinary64_def
      le_bytes_numeral)

text \<open>
  C6 fails on the code. For the ephemerals map with the one entry of session 1 and path
  \<open>/a\<close>, \<open>serializeEphemeralsV2\<close> returns 1 and writes 50 bytes: one batch header and one
  batch body. The file starts with the batch length 34, not with \<open>SnapHead\<close>, and its
  last 12 bytes are not \<open>SnapTail\<close> and a checksum.
\<close>

theorem serializeEphemeralsV2_no_header_no_tail:
  "(case serializeEphemeralsV2 0 [(1, [bytes_of ''/a''])] 10 of
      Returns (r, Some file) \<Rightarrow>
        r = 1 \<and> length file = 50
        \<and> take 8 file = writeIntBinary64 34
        \<and> take 8 file \<noteq> MAGIC_SNAPSHOT_HEAD
        \<and> take 8 (drop (length file - 12) file) \<noteq> MAGIC_SNAPSHOT_TAIL
    | _ \<Rightarrow> False)"
proof -
  have "serializeEphemeralsV2 0 [(1, [bytes_of ''/a''])] 10 =
      Returns (1, Some (fst (saveBatchV2 0 []
        (Some \<lparr>type = SNAPSHOT_TYPE_DATA_EPHEMERAL,
                elements = [write_ephemeral (1, [bytes_of ''/a''])]\<rparr>))))"
    by (simp add: serializeEphemeralsV2_def serializeEphemeralsV2_step_def add_def)
  then show ?thesis
    by (simp add: saveBatchV2_def Let_def serialize_def serialize_element_def
        write_ephemeral_def write_i64_def write_i32_def write_string_def be_bytes_def
        bytes_of_def writeIntBinary32_def writeIntBinary64_def length_le_bytes
        MAGIC_SNAPSHOT_HEAD_def MAGIC_SNAPSHOT_TAIL_def le_bytes_numeral)
qed

section \<open>Properties of the commit processor\<close>

lemma expire_requests_map:
  "expire_requests q = map (\<lambda>r. MadeResponse (session_id r) (xid r) 0 ZSESSIONEXPIRED) q"
  by (induction q) simp_all

text \<open>
  C5. After \<open>shutdown\<close>, each request that was in the input queue has a response with its
  own xid, zxid 0 and error \<open>ZSESSIONEXPIRED\<close> in the response queue, in queue order, and
  the queue is empty; a later \<open>processRequest\<close> changes nothing.
\<close>

theorem shutdown_answers_input_queue:
  assumes "\<not> shutdown_called s"
  shows "responses_queue (shutdown s) =
           responses_queue s
           @ map (\<lambda>r. MadeResponse (session_id r) (xid r) 0 ZSESSIONEXPIRED) (requests_queue s)
         \<and> requests_queue (shutdown s) = []
         \<and> shutdown_called (shutdown s)
         \<and> processRequest r (shutdown s) = shutdown s"
  using assms by (simp add: shutdown_def processRequest_def expire_requests_map)

theorem shutdown_answers_input_queue_witness:
  "responses_queue (shutdown (processRequest \<lparr>session_id = 1, xid = 7, isReadRequest = False\<rparr>
       (processRequest \<lparr>session_id = 2, xid = 3, isReadRequest = True\<rparr> initial)))
     = [MadeResponse 2 3 0 ZSESSIONEXPIRED, MadeResponse 1 7 0 ZSESSIONEXPIRED]
   \<and> processRequest \<lparr>session_id = 1, xid = 8, isReadRequest = True\<rparr>
       (shutdown (processRequest \<lparr>session_id = 1, xid = 7, isReadRequest = False\<rparr>
         (processRequest \<lparr>session_id = 2, xid = 3, isReadRequest = True\<rparr> initial)))
     = shutdown (processRequest \<lparr>session_id = 1, xid = 7, isReadRequest = False\<rparr>
         (processRequest \<lparr>session_id = 2, xid = 3, isReadRequest = True\<rparr> initial))"
  using shutdown_answers_input_queue [of
      "processRequest \<lparr>session_id = 1, xid = 7, isReadRequest = False\<rparr>
         (processRequest \<lparr>session_id = 2, xid = 3, isReadRequest = True\<rparr> initial)"
      "\<lparr>session_id = 1, xid = 8, isReadRequest = True\<rparr>"]
  by (simp add: processRequest_def initial_def)

lemma drain_errors_found:
  assumes e: "errors s = ((sid, x), (accepted, error_code)) # rest"
    and p: "find_map (pending_requests s) sid = Some requests"
    and w: "find_map (pending_write_requests s) sid = Some w_requests"
    and t: "take_request x requests = (Some r, requests1)"
  shows "drain_errors s = Returns (Throws (s\<lparr>
           pending_requests := AList.update sid requests1 (pending_requests s),
           pending_write_requests :=
             AList.update sid (snd (take_request x w_requests)) (pending_write_requests s),
           responses_queue := responses_queue s
             @ [MadeResponse (session_id r) (xid r) 0 (commit_error error_code)],
           errors := rest\<rparr>))"
proof -
  obtain wr w1 where tw: "take_request x w_requests = (wr, w1)"
    by (cases "take_request x w_requests")
  show ?thesis
    unfolding drain_errors_def by (simp add: e p w t tw)
qed

lemma drain_errors_not_found:
  assumes e: "errors s = ((sid, x), (accepted, error_code)) # rest"
    and p: "find_map (pending_requests s) sid = Some requests"
    and w: "find_map (pending_write_requests s) sid = Some w_requests"
    and t: "take_request x requests = (None, requests1)"
  shows "drain_errors s = Returns (Throws (s\<lparr>
           pending_requests := AList.update sid requests1 (pending_requests s),
           pending_write_requests :=
             AList.update sid (snd (take_request x w_requests)) (pending_write_requests s)\<rparr>))"
proof -
  obtain wr w1 where tw: "take_request x w_requests = (wr, w1)"
    by (cases "take_request x w_requests")
  show ?thesis
    unfolding drain_errors_def by (simp add: e p w t tw)
qed

lemma run3_body_Throws:
  "drain_errors s = Returns (Throws s') \<Longrightarrow> run3_body s = Returns (Throws s')"
  by (simp add: run3_body_def and_then_def)

lemma run3_iteration_Throws:
  "\<not> shutdown_called s \<Longrightarrow> run3_body s = Returns (Throws s') \<Longrightarrow> run3_iteration s = Returns s'"
  by (simp add: run3_iteration_def)


lemma applied_requests_append:
  "applied_requests (xs @ ys) = applied_requests xs @ applied_requests ys"
  by (induction xs rule: applied_requests.induct) simp_all

text \<open>
  C3 fails on the code. The loop over \<open>errors\<close> is written to go on after each entry
  (\<open>it = errors.erase(it)\<close>), but both branches that follow the erase throw, so the
  iteration handles the entry it visits first and no other. With two error entries, each
  with its request pending, one iteration removes the first request from both pending
  vectors, pushes its response (xid of the request, zxid 0, \<open>ZOPERATIONTIMEOUT\<close> for
  \<open>TIMEOUT\<close>) and erases its entry; the other entry stays in \<open>errors\<close>, its request
  stays in both pending vectors and no response is pushed for it, whichever of the two
  the loop visits first.
\<close>

theorem error_loop_handles_one_entry:
  "run3_iteration
     \<lparr>requests_queue = [], committed_queue = [],
        errors = [((5, 100), (True, TIMEOUT)), ((6, 200), (True, TIMEOUT))],
        pending_requests = [(5, [\<lparr>session_id = 5, xid = 100, isReadRequest = False\<rparr>]),
                            (6, [\<lparr>session_id = 6, xid = 200, isReadRequest = False\<rparr>])],
        pending_write_requests = [(5, [\<lparr>session_id = 5, xid = 100, isReadRequest = False\<rparr>]),
                                  (6, [\<lparr>session_id = 6, xid = 200, isReadRequest = False\<rparr>])],
        responses_queue = [], shutdown_called = False\<rparr>
   = Returns
     \<lparr>requests_queue = [], committed_queue = [],
        errors = [((6, 200), (True, TIMEOUT))],
        pending_requests = [(5, []),
                            (6, [\<lparr>session_id = 6, xid = 200, isReadRequest = False\<rparr>])],
        pending_write_requests = [(5, []),
                                  (6, [\<lparr>session_id = 6, xid = 200, isReadRequest = False\<rparr>])],
        responses_queue = [MadeResponse 5 100 0 ZOPERATIONTIMEOUT], shutdown_called = False\<rparr>
   \<and> run3_iteration
     \<lparr>requests_queue = [], committed_queue = [],
        errors = [((6, 200), (True, TIMEOUT)), ((5, 100), (True, TIMEOUT))],
        pending_requests = [(5, [\<lparr>session_id = 5, xid = 100, isReadRequest = False\<rparr>]),
                            (6, [\<lparr>session_id = 6, xid = 200, isReadRequest = False\<rparr>])],
        pending_write_requests = [(5, [\<lparr>session_id = 5, xid = 100, isReadRequest = False\<rparr>]),
                                  (6, [\<lparr>session_id = 6, xid = 200, isReadRequest = False\<rparr>])],
        responses_queue = [], shutdown_called = False\<rparr>
   = Returns
     \<lparr>requests_queue = [], committed_queue = [],
        errors = [((5, 100), (True, TIMEOUT))],
        pending_requests = [(5, [\<lparr>session_id = 5, xid = 100, isReadRequest = False\<rparr>]),
                            (6, [])],
        pending_write_requests = [(5, [\<lparr>session_id = 5, xid = 100, isReadRequest = False\<rparr>]),
                                  (6, [])],
        responses_queue = [MadeResponse 6 200 0 ZOPERATIONTIMEOUT], shutdown_called = False\<rparr>"
  by (simp add: run3_iteration_def run3_body_def and_then_def drain_errors_def find_map_def
      commit_error_def)

text \<open>
  C10. When \<open>errors\<close> is not empty and the session of its first entry has its two
  pending vectors, the body of the iteration throws in the error phase, for either value of
  \<open>accepted\<close>, and the iteration continues after the \<open>catch\<close>. At most one error entry is
  consumed: the first, when a pending request has its xid, with one response pushed; none
  otherwise. The input queue and the committed queue are left as they were and no request
  is applied to the store.
\<close>

theorem error_iteration_throws:
  assumes e: "errors s = ((sid, x), (accepted, error_code)) # rest"
    and p: "find_map (pending_requests s) sid = Some requests"
    and w: "find_map (pending_write_requests s) sid = Some w_requests"
    and live: "\<not> shutdown_called s"
  shows "\<exists>s'. run3_body s = Returns (Throws s') \<and> run3_iteration s = Returns s'
           \<and> requests_queue s' = requests_queue s
           \<and> committed_queue s' = committed_queue s
           \<and> applied_requests (responses_queue s') = applied_requests (responses_queue s)
           \<and> (case fst (take_request x requests) of
                 Some r \<Rightarrow>
                   errors s' = rest
                   \<and> responses_queue s' = responses_queue s
                        @ [MadeResponse (session_id r) (xid r) 0 (commit_error error_code)]
               | None \<Rightarrow> errors s' = errors s \<and> responses_queue s' = responses_queue s)"
proof (cases "take_request x requests")
  case (Pair found requests1)
  show ?thesis
  proof (cases found)
    case None
    define s' where "s' = s\<lparr>
           pending_requests := AList.update sid requests1 (pending_requests s),
           pending_write_requests :=
             AList.update sid (snd (take_request x w_requests)) (pending_write_requests s)\<rparr>"
    have t: "take_request x requests = (None, requests1)" using Pair None by simp
    have "drain_errors s = Returns (Throws s')"
      unfolding s'_def using e p w t by (rule drain_errors_not_found)
    then have b: "run3_body s = Returns (Throws s')" by (rule run3_body_Throws)
    with live have "run3_iteration s = Returns s'" by (rule run3_iteration_Throws)
    with b show ?thesis by (simp add: t s'_def)
  next
    case (Some r)
    define s' where "s' = s\<lparr>
           pending_requests := AList.update sid requests1 (pending_requests s),
           pending_write_requests :=
             AList.update sid (snd (take_request x w_requests)) (pending_write_requests s),
           responses_queue := responses_queue s
             @ [MadeResponse (session_id r) (xid r) 0 (commit_error error_code)],
           errors := rest\<rparr>"
    have t: "take_request x requests = (Some r, requests1)" using Pair Some by simp
    have "drain_errors s = Returns (Throws s')"
      unfolding s'_def using e p w t by (rule drain_errors_found)
    then have b: "run3_body s = Returns (Throws s')" by (rule run3_body_Throws)
    with live have "run3_iteration s = Returns s'" by (rule run3_iteration_Throws)
    with b show ?thesis by (simp add: t s'_def applied_requests_append)
  qed
qed

theorem error_iteration_throws_witness:
  "\<exists>s'. run3_body
          \<lparr>requests_queue = [\<lparr>session_id = 5, xid = 101, isReadRequest = True\<rparr>],
             committed_queue = [\<lparr>session_id = 5, xid = 100, isReadRequest = False\<rparr>],
             errors = [((5, 100), (False, FAILED))],
             pending_requests = [(5, [\<lparr>session_id = 5, xid = 100, isReadRequest = False\<rparr>])],
             pending_write_requests = [(5, [\<lparr>session_id = 5, xid = 100, isReadRequest = False\<rparr>])],
             responses_queue = [], shutdown_called = False\<rparr> = Returns (Throws s')
        \<and> run3_iteration
          \<lparr>requests_queue = [\<lparr>session_id = 5, xid = 101, isReadRequest = True\<rparr>],
             committed_queue = [\<lparr>session_id = 5, xid = 100, isReadRequest = False\<rparr>],
             errors = [((5, 100), (False, FAILED))],
             pending_requests = [(5, [\<lparr>session_id = 5, xid = 100, isReadRequest = False\<rparr>])],
             pending_write_requests = [(5, [\<lparr>session_id = 5, xid = 100, isReadRequest = False\<rparr>])],
             responses_queue = [], shutdown_called = False\<rparr> = Returns s'
        \<and> requests_queue s' = [\<lparr>session_id = 5, xid = 101, isReadRequest = True\<rparr>]
        \<and> committed_queue s' = [\<lparr>session_id = 5, xid = 100, isReadRequest = False\<rparr>]
        \<and> applied_requests (responses_queue s') = []
        \<and> errors s' = []
        \<and> responses_queue s' = [MadeResponse 5 100 0 ZCONNECTIONLOSS]"
  using error_iteration_throws [of
      "\<lparr>requests_queue = [\<lparr>session_id = 5, xid = 101, isReadRequest = True\<rparr>],
             committed_queue = [\<lparr>session_id = 5, xid = 100, isReadRequest = False\<rparr>],
             errors = [((5, 100), (False, FAILED))],
             pending_requests = [(5, [\<lparr>session_id = 5, xid = 100, isReadRequest = False\<rparr>])],
             pending_write_requests = [(5, [\<lparr>session_id = 5, xid = 100, isReadRequest = False\<rparr>])],
             responses_queue = [], shutdown_called = False\<rparr>"
      5 100 False FAILED "[]"
      "[\<lparr>session_id = 5, xid = 100, isReadRequest = False\<rparr>]"
      "[\<lparr>session_id = 5, xid = 100, isReadRequest = False\<rparr>]"]
  by (simp add: find_map_def commit_error_def)


lemma requests_of_Nil: "requests_of [] k = []"
  by (simp add: requests_of_def)

lemma requests_of_Cons:
  "requests_of ((k, v) # m) k' = (if k' = k then v else requests_of m k')"
  by (simp add: requests_of_def)

lemma requests_of_absent: "k \<notin> fst ` set m \<Longrightarrow> requests_of m k = []"
  by (simp add: requests_of_def map_of_eq_None_iff [THEN iffD2])

lemma requests_of_update:
  "requests_of (AList.update k v m) k' = (if k' = k then v else requests_of m k')"
  by (simp add: requests_of_def update_conv')

lemma requests_of_delete:
  "requests_of (AList.delete k m) k' = (if k' = k then [] else requests_of m k')"
  by (simp add: requests_of_def delete_conv')

lemma requests_of_subscript: "requests_of (subscript m k) k' = requests_of m k'"
  by (auto simp add: requests_of_def subscript_def map_add_def split: option.splits)


lemma distinct_subscript: "distinct (map fst m) \<Longrightarrow> distinct (map fst (subscript m k))"
  by (auto simp add: subscript_def map_of_eq_None_iff split: option.splits)

lemma requests_of_push_back:
  "requests_of (push_back k r m) k' = (if k' = k then requests_of m k @ [r] else requests_of m k')"
  by (simp add: push_back_def requests_of_update)

lemma distinct_push_back: "distinct (map fst m) \<Longrightarrow> distinct (map fst (push_back k r m))"
  by (simp add: push_back_def distinct_update)

lemma writes_Cons:
  "writes (r # rs) = (if isReadRequest r then writes rs else r # writes rs)"
  by (simp add: writes_def)

lemma writes_append: "writes (xs @ ys) = writes xs @ writes ys"
  by (simp add: writes_def)

lemma set_writes: "set (writes rs) = {r \<in> set rs. \<not> isReadRequest r}"
  by (simp add: writes_def)


lemma applied_requests_StorageResponse: "applied_requests (map StorageResponse rs) = rs"
  by (induction rs) simp_all

lemma of_session_append: "of_session k (xs @ ys) = of_session k xs @ of_session k ys"
  by (simp add: of_session_def)

lemma of_session_same: "\<forall>r \<in> set rs. session_id r = k \<Longrightarrow> of_session k rs = rs"
  by (simp add: of_session_def)

lemma of_session_other: "\<forall>r \<in> set rs. session_id r \<noteq> k \<Longrightarrow> of_session k rs = []"
  by (induction rs) (simp_all add: of_session_def)

lemma requests_of_member:
  "distinct (map fst p) \<Longrightarrow> (sid, rs) \<in> set p \<Longrightarrow> requests_of p sid = rs"
  by (simp add: requests_of_def)

lemma run_append:
  "run (xs @ ys) s = (case run xs s of Undefined \<Rightarrow> Undefined | Returns s1 \<Rightarrow> run ys s1)"
  by (induction xs arbitrary: s) (simp_all split: outcome.splits)

lemma run_Iterate_fixed: "run3_iteration s = Returns s \<Longrightarrow> run (replicate n Iterate) s = Returns s"
  by (induction n) simp_all

















subsection \<open>Order within a session\<close>

lemma of_session_snoc:
  "of_session sid (xs @ [r]) = (if session_id r = sid then of_session sid xs @ [r] else of_session sid xs)"
  by (simp add: of_session_def)

lemma set_of_session: "set (of_session sid xs) = {r \<in> set xs. session_id r = sid}"
  by (simp add: of_session_def)

lemma sorted_snoc_later:
  assumes "sorted_wrt (<) (map xid (of_session sid xs))" "later_in_session r xs"
  shows "sorted_wrt (<) (map xid (of_session sid (xs @ [r])))"
proof (cases "session_id r = sid")
  case True
  have "\<forall>e \<in> set (of_session sid xs). xid e < xid r"
    using assms(2) True by (auto simp add: later_in_session_def list_all_iff set_of_session)
  then show ?thesis using assms(1) True
    by (simp add: of_session_snoc sorted_wrt_append)
next
  case False
  then show ?thesis using assms(1) by (simp add: of_session_snoc)
qed

lemma later_not_member:
  assumes "later_in_session r xs"
  shows "r \<notin> set xs"
proof
  assume m: "r \<in> set xs"
  have "\<forall>e \<in> set xs. session_id e \<noteq> session_id r \<or> xid e < xid r"
    using assms by (simp add: later_in_session_def list_all_iff)
  with m have "session_id r \<noteq> session_id r \<or> xid r < xid r" by blast
  then show False by simp
qed

lemma of_session_Cons:
  "of_session sid (r # xs) = (if session_id r = sid then r # of_session sid xs else of_session sid xs)"
  by (simp add: of_session_def)

lemma of_session_Nil: "of_session sid [] = []"
  by (simp add: of_session_def)

lemma writes_Nil: "writes [] = []"
  by (simp add: writes_def)

lemma drain_requests_view:
  "requests_queue (drain_requests n s) = drop n (requests_queue s)
   \<and> (\<forall>sid. requests_of (pending_requests (drain_requests n s)) sid
         = requests_of (pending_requests s) sid @ of_session sid (take n (requests_queue s)))
   \<and> (\<forall>sid. requests_of (pending_write_requests (drain_requests n s)) sid
         = requests_of (pending_write_requests s) sid
           @ writes (of_session sid (take n (requests_queue s))))
   \<and> (distinct (map fst (pending_requests s))
        \<longrightarrow> distinct (map fst (pending_requests (drain_requests n s))))
   \<and> (distinct (map fst (pending_write_requests s))
        \<longrightarrow> distinct (map fst (pending_write_requests (drain_requests n s))))
   \<and> committed_queue (drain_requests n s) = committed_queue s
   \<and> errors (drain_requests n s) = errors s
   \<and> responses_queue (drain_requests n s) = responses_queue s
   \<and> shutdown_called (drain_requests n s) = shutdown_called s"
proof (induction n arbitrary: s)
  case 0
  then show ?case by (simp add: of_session_Nil writes_Nil)
next
  case (Suc n)
  show ?case
  proof (cases "requests_queue s")
    case Nil
    then have "drain_requests (Suc n) s = drain_requests n s" by simp
    then show ?thesis using Suc.IH [of s] Nil by simp
  next
    case (Cons r q)
    define s1 where "s1 = s\<lparr>
            requests_queue := q,
            pending_requests := push_back (session_id r) r (pending_requests s),
            pending_write_requests :=
              (if \<not> isReadRequest r
               then push_back (session_id r) r (pending_write_requests s)
               else pending_write_requests s)\<rparr>"
    have step: "drain_requests (Suc n) s = drain_requests n s1"
      using Cons by (simp add: s1_def)
    have q1: "requests_queue s1 = q" by (simp add: s1_def)
    have p1: "\<And>sid. requests_of (pending_requests s1) sid
        = requests_of (pending_requests s) sid @ of_session sid [r]"
      by (simp add: s1_def requests_of_push_back of_session_Cons of_session_Nil)
    have w1: "\<And>sid. requests_of (pending_write_requests s1) sid
        = requests_of (pending_write_requests s) sid @ writes (of_session sid [r])"
      by (simp add: s1_def requests_of_push_back of_session_Cons of_session_Nil writes_Cons writes_Nil)
    have d1: "distinct (map fst (pending_requests s)) \<longrightarrow> distinct (map fst (pending_requests s1))"
      by (simp add: s1_def distinct_push_back)
    have d2: "distinct (map fst (pending_write_requests s))
        \<longrightarrow> distinct (map fst (pending_write_requests s1))"
      by (simp add: s1_def distinct_push_back)
    have o1: "committed_queue s1 = committed_queue s" "errors s1 = errors s"
      "responses_queue s1 = responses_queue s" "shutdown_called s1 = shutdown_called s"
      by (simp_all add: s1_def)
    have split: "\<And>sid. of_session sid (take (Suc n) (requests_queue s))
        = of_session sid [r] @ of_session sid (take n q)"
      using Cons by (simp add: of_session_Cons of_session_Nil)
    show ?thesis
      unfolding step using Suc.IH [of s1] Cons d1 d2
      by (simp add: q1 p1 w1 o1 of_session_Cons of_session_Nil writes_Cons writes_Nil)
  qed
qed

lemma same_xid_same_request:
  assumes "sorted_wrt (<) (map xid xs)" "a \<in> set xs" "b \<in> set xs" "xid a = xid b"
  shows "a = b"
proof -
  have "distinct (map xid xs)" using assms(1) by (simp add: strict_sorted_iff)
  then have "inj_on xid (set xs)" by (simp add: distinct_map)
  then show ?thesis using assms(4) assms(2) assms(3) by (rule inj_onD)
qed

lemma requests_of_erase_head:
  "requests_of (if tl v = [] then AList.delete k m else AList.update k (tl v) m) k'
     = (if k' = k then tl v else requests_of m k')"
  by (simp add: requests_of_update requests_of_delete)

lemma prefix_sorted:
  "prefix xs ys \<Longrightarrow> sorted_wrt (<) (map f ys) \<Longrightarrow> sorted_wrt (<) (map f xs)"
  by (auto simp add: prefix_def sorted_wrt_append)

lemma responses_of_session_storage:
  "responses_of_session sid (map StorageResponse rs) = map StorageResponse (of_session sid rs)"
  by (induction rs) (simp_all add: responses_of_session_def of_session_def)

lemma session_orderD:
  assumes "session_order sid E K s"
  shows "errors s = []" "\<not> shutdown_called s"
    "distinct (map fst (pending_requests s))"
    "distinct (map fst (pending_write_requests s))"
    "responses_queue s = map StorageResponse (applied_requests (responses_queue s))"
    "\<And>k r. r \<in> set (requests_of (pending_requests s) k) \<Longrightarrow> session_id r = k"
    "\<And>k. subseq (requests_of (pending_write_requests s) k) (requests_of (pending_requests s) k)"
    "\<And>k r. r \<in> set (requests_of (pending_write_requests s) k) \<Longrightarrow> \<not> isReadRequest r"
    "of_session sid E =
            of_session sid (applied_requests (responses_queue s))
            @ requests_of (pending_requests s) sid
            @ of_session sid (requests_queue s)"
    "requests_of (pending_write_requests s) sid = writes (requests_of (pending_requests s) sid)"
    "sorted_wrt (<) (map xid (of_session sid E))"
    "sorted_wrt (<) (map xid (of_session sid K))"
    "distinct (of_session sid (committed_queue s))"
    "\<And>c. c \<in> set (of_session sid (committed_queue s)) \<Longrightarrow>
            \<not> isReadRequest c \<and> c \<in> set K
            \<and> (c \<in> set (requests_of (pending_requests s) sid) \<or> c \<in> set (requests_queue s))"
    "\<And>a. a \<in> set (of_session sid (applied_requests (responses_queue s))) \<Longrightarrow>
            isReadRequest a \<or> a \<in> set K"
  using assms unfolding session_order_def by blast+

lemma session_orderI:
  assumes "errors s = []" "\<not> shutdown_called s"
    "distinct (map fst (pending_requests s))"
    "distinct (map fst (pending_write_requests s))"
    "responses_queue s = map StorageResponse (applied_requests (responses_queue s))"
    "\<And>k r. r \<in> set (requests_of (pending_requests s) k) \<Longrightarrow> session_id r = k"
    "\<And>k. subseq (requests_of (pending_write_requests s) k) (requests_of (pending_requests s) k)"
    "\<And>k r. r \<in> set (requests_of (pending_write_requests s) k) \<Longrightarrow> \<not> isReadRequest r"
    "of_session sid E =
            of_session sid (applied_requests (responses_queue s))
            @ requests_of (pending_requests s) sid
            @ of_session sid (requests_queue s)"
    "requests_of (pending_write_requests s) sid = writes (requests_of (pending_requests s) sid)"
    "sorted_wrt (<) (map xid (of_session sid E))"
    "sorted_wrt (<) (map xid (of_session sid K))"
    "distinct (of_session sid (committed_queue s))"
    "\<And>c. c \<in> set (of_session sid (committed_queue s)) \<Longrightarrow>
            \<not> isReadRequest c \<and> c \<in> set K
            \<and> (c \<in> set (requests_of (pending_requests s) sid) \<or> c \<in> set (requests_queue s))"
    "\<And>a. a \<in> set (of_session sid (applied_requests (responses_queue s))) \<Longrightarrow>
            isReadRequest a \<or> a \<in> set K"
  shows "session_order sid E K s"
  unfolding session_order_def using assms by blast

lemma session_order_initial: "session_order sid [] [] initial"
  by (simp add: session_order_def initial_def of_session_def requests_of_def writes_def)


lemma sorted_snoc_for:
  assumes "sorted_wrt (<) (map xid (of_session sid xs))"
    "session_id r \<noteq> sid \<or> later_in_session r xs"
  shows "sorted_wrt (<) (map xid (of_session sid (xs @ [r])))"
proof (cases "session_id r = sid")
  case True
  then have "later_in_session r xs" using assms(2) by blast
  with assms(1) show ?thesis by (rule sorted_snoc_later)
next
  case False
  then show ?thesis using assms(1) by (simp add: of_session_snoc)
qed

lemma session_order_processRequest:
  assumes inv: "session_order sid E K s"
    and later: "session_id r \<noteq> sid \<or> later_in_session r E"
  shows "session_order sid (E @ [r]) K (processRequest r s)"
proof -
  note d = session_orderD [OF inv]
  define s' where "s' = s\<lparr>requests_queue := requests_queue s @ [r]\<rparr>"
  have eq: "processRequest r s = s'"
    using d(2) by (simp add: processRequest_def s'_def)
  have f: "requests_queue s' = requests_queue s @ [r]"
    "pending_requests s' = pending_requests s"
    "pending_write_requests s' = pending_write_requests s"
    "responses_queue s' = responses_queue s" "committed_queue s' = committed_queue s"
    "errors s' = errors s" "shutdown_called s' = shutdown_called s"
    by (simp_all add: s'_def)
  have "session_order sid (E @ [r]) K s'"
  proof (rule session_orderI)
    show "of_session sid (E @ [r]) =
        of_session sid (applied_requests (responses_queue s'))
        @ requests_of (pending_requests s') sid @ of_session sid (requests_queue s')"
      using d(9) by (simp add: f of_session_snoc)
    show "sorted_wrt (<) (map xid (of_session sid (E @ [r])))"
      using d(11) later by (rule sorted_snoc_for)
  next
    fix c assume "c \<in> set (of_session sid (committed_queue s'))"
    then have "c \<in> set (of_session sid (committed_queue s))" by (simp add: f)
    from d(14) [OF this]
    show "\<not> isReadRequest c \<and> c \<in> set K
            \<and> (c \<in> set (requests_of (pending_requests s') sid) \<or> c \<in> set (requests_queue s'))"
      by (auto simp add: f)
  next
    fix a assume "a \<in> set (of_session sid (applied_requests (responses_queue s')))"
    then show "isReadRequest a \<or> a \<in> set K" using d(15) by (simp add: f)
  next
    fix k r' assume "r' \<in> set (requests_of (pending_requests s') k)"
    then show "session_id r' = k" using d(6) by (simp add: f)
  next
    fix k r' assume "r' \<in> set (requests_of (pending_write_requests s') k)"
    then show "\<not> isReadRequest r'" using d(8) by (simp add: f)
  next
    fix k show "subseq (requests_of (pending_write_requests s') k) (requests_of (pending_requests s') k)"
      using d(7) by (simp add: f)
  qed (use d in \<open>simp_all add: f\<close>)
  then show ?thesis by (simp add: eq)
qed

lemma session_order_commit:
  assumes inv: "session_order sid E K s"
    and ok: "session_id c \<noteq> sid \<or> (\<not> isReadRequest c \<and> c \<in> set E \<and> later_in_session c K)"
  shows "session_order sid E (K @ [c]) (commit c s)"
proof -
  note d = session_orderD [OF inv]
  define s' where "s' = s\<lparr>committed_queue := committed_queue s @ [c]\<rparr>"
  have eq: "commit c s = s'"
    using d(2) by (simp add: commit_def s'_def)
  have f: "requests_queue s' = requests_queue s"
    "pending_requests s' = pending_requests s"
    "pending_write_requests s' = pending_write_requests s"
    "responses_queue s' = responses_queue s" "committed_queue s' = committed_queue s @ [c]"
    "errors s' = errors s" "shutdown_called s' = shutdown_called s"
    by (simp_all add: s'_def)
  have own: "session_id c = sid \<Longrightarrow>
      \<not> isReadRequest c \<and> c \<notin> set K \<and> c \<notin> set (of_session sid (committed_queue s))
      \<and> (c \<in> set (requests_of (pending_requests s) sid) \<or> c \<in> set (requests_queue s))"
  proof -
    assume sc: "session_id c = sid"
    then have w: "\<not> isReadRequest c" and e: "c \<in> set E" and later: "later_in_session c K"
      using ok by blast+
    have notK: "c \<notin> set K" using later by (rule later_not_member)
    have notC: "c \<notin> set (of_session sid (committed_queue s))" using d(14) notK by blast
    have notA: "c \<notin> set (of_session sid (applied_requests (responses_queue s)))"
      using d(15) w notK by blast
    have "c \<in> set (of_session sid E)" using e sc by (simp add: set_of_session)
    then have "c \<in> set (of_session sid (applied_requests (responses_queue s)))
      \<or> c \<in> set (requests_of (pending_requests s) sid)
      \<or> c \<in> set (of_session sid (requests_queue s))"
      unfolding d(9) by simp
    then have "c \<in> set (requests_of (pending_requests s) sid) \<or> c \<in> set (requests_queue s)"
      using notA by (auto simp add: set_of_session)
    then show ?thesis using w notK notC by blast
  qed
  have "session_order sid E (K @ [c]) s'"
  proof (rule session_orderI)
    show "of_session sid E =
        of_session sid (applied_requests (responses_queue s'))
        @ requests_of (pending_requests s') sid @ of_session sid (requests_queue s')"
      using d(9) by (simp add: f)
    show "sorted_wrt (<) (map xid (of_session sid (K @ [c])))"
      using d(12) ok by (intro sorted_snoc_for) blast+
    show "distinct (of_session sid (committed_queue s'))"
      using d(13) own by (simp add: f of_session_snoc)
  next
    fix c' assume "c' \<in> set (of_session sid (committed_queue s'))"
    then consider "c' \<in> set (of_session sid (committed_queue s))" | "c' = c" "session_id c = sid"
      by (auto simp add: f of_session_snoc split: if_splits)
    then show "\<not> isReadRequest c' \<and> c' \<in> set (K @ [c])
            \<and> (c' \<in> set (requests_of (pending_requests s') sid) \<or> c' \<in> set (requests_queue s'))"
    proof cases
      case 1
      from d(14) [OF this] show ?thesis by (auto simp add: f)
    next
      case 2
      then show ?thesis using own by (simp add: f)
    qed
  next
    fix a assume "a \<in> set (of_session sid (applied_requests (responses_queue s')))"
    then have "a \<in> set (of_session sid (applied_requests (responses_queue s)))" by (simp add: f)
    from d(15) [OF this] show "isReadRequest a \<or> a \<in> set (K @ [c])" by auto
  next
    fix k r' assume "r' \<in> set (requests_of (pending_requests s') k)"
    then show "session_id r' = k" using d(6) by (simp add: f)
  next
    fix k r' assume "r' \<in> set (requests_of (pending_write_requests s') k)"
    then show "\<not> isReadRequest r'" using d(8) by (simp add: f)
  next
    fix k show "subseq (requests_of (pending_write_requests s') k) (requests_of (pending_requests s') k)"
      using d(7) by (simp add: f)
  qed (use d in \<open>simp_all add: f\<close>)
  then show ?thesis by (simp add: eq)
qed


lemma subseq_writes: "subseq (writes xs) xs"
  by (simp add: writes_def)

lemma session_order_drain:
  assumes inv: "session_order sid E K s"
  shows "session_order sid E K (drain_requests (length (requests_queue s)) s)
       \<and> requests_queue (drain_requests (length (requests_queue s)) s) = []"
proof -
  note d = session_orderD [OF inv]
  define s' where "s' = drain_requests (length (requests_queue s)) s"
  have v: "requests_queue s' = []"
    "\<And>k. requests_of (pending_requests s') k
         = requests_of (pending_requests s) k @ of_session k (requests_queue s)"
    "\<And>k. requests_of (pending_write_requests s') k
         = requests_of (pending_write_requests s) k @ writes (of_session k (requests_queue s))"
    "distinct (map fst (pending_requests s'))"
    "distinct (map fst (pending_write_requests s'))"
    "committed_queue s' = committed_queue s" "errors s' = errors s"
    "responses_queue s' = responses_queue s" "shutdown_called s' = shutdown_called s"
    using drain_requests_view [of "length (requests_queue s)" s] d(3,4)
    by (simp_all add: s'_def)
  have "session_order sid E K s'"
  proof (rule session_orderI)
    show "of_session sid E =
        of_session sid (applied_requests (responses_queue s'))
        @ requests_of (pending_requests s') sid @ of_session sid (requests_queue s')"
      using d(9) by (simp add: v of_session_Nil)
    show "requests_of (pending_write_requests s') sid = writes (requests_of (pending_requests s') sid)"
      using d(10) by (simp add: v writes_append)
  next
    fix c assume "c \<in> set (of_session sid (committed_queue s'))"
    then have "c \<in> set (of_session sid (committed_queue s))" by (simp add: v)
    from d(14) [OF this]
    have f: "\<not> isReadRequest c" "c \<in> set K"
      "c \<in> set (requests_of (pending_requests s) sid) \<or> c \<in> set (requests_queue s)"
      by blast+
    have "session_id c = sid"
      using \<open>c \<in> set (of_session sid (committed_queue s))\<close> by (simp add: set_of_session)
    then have "c \<in> set (requests_of (pending_requests s') sid)"
      using f(3) by (auto simp add: v set_of_session)
    then show "\<not> isReadRequest c \<and> c \<in> set K
            \<and> (c \<in> set (requests_of (pending_requests s') sid) \<or> c \<in> set (requests_queue s'))"
      using f by blast
  next
    fix a assume "a \<in> set (of_session sid (applied_requests (responses_queue s')))"
    then show "isReadRequest a \<or> a \<in> set K" using d(15) by (simp add: v)
  next
    fix k r assume "r \<in> set (requests_of (pending_requests s') k)"
    then show "session_id r = k" using d(6) [of r k] by (auto simp add: v set_of_session)
  next
    fix k r assume "r \<in> set (requests_of (pending_write_requests s') k)"
    then show "\<not> isReadRequest r" using d(8) [of r k] by (auto simp add: v set_writes)
  next
    fix k
    show "subseq (requests_of (pending_write_requests s') k) (requests_of (pending_requests s') k)"
      unfolding v using d(7) [of k] subseq_writes by (rule list_emb_append_mono)
  qed (use d v in simp_all)
  then show ?thesis using v(1) by (simp add: s'_def)
qed


lemma serve_session_any:
  "(\<exists>served. rs = served @ fst (after_catch (serve_session sid rs (pw, out)))
       \<and> snd (snd (after_catch (serve_session sid rs (pw, out)))) = out @ map StorageResponse served
       \<and> (\<forall>r \<in> set served. isReadRequest r))
   \<and> (\<forall>k. requests_of (fst (snd (after_catch (serve_session sid rs (pw, out))))) k
          = requests_of pw k)
   \<and> (distinct (map fst pw)
        \<longrightarrow> distinct (map fst (fst (snd (after_catch (serve_session sid rs (pw, out)))))))"
proof (induction rs arbitrary: pw out)
  case Nil
  have "[] = [] @ fst (after_catch (serve_session sid [] (pw, out)))
       \<and> snd (snd (after_catch (serve_session sid [] (pw, out)))) = out @ map StorageResponse []
       \<and> (\<forall>r \<in> set ([] :: RequestForSession list). isReadRequest r)"
    by simp
  then have "\<exists>served. [] = served @ fst (after_catch (serve_session sid [] (pw, out)))
       \<and> snd (snd (after_catch (serve_session sid [] (pw, out)))) = out @ map StorageResponse served
       \<and> (\<forall>r \<in> set served. isReadRequest r)"
    by (rule exI)
  then show ?case by simp
next
  case (Cons r rs)
  define pw1 where "pw1 = subscript pw sid"
  define w where "w = requests_of pw1 sid"
  have same1: "\<forall>k. requests_of pw1 k = requests_of pw k"
    by (simp add: pw1_def requests_of_subscript)
  have d1: "distinct (map fst pw) \<longrightarrow> distinct (map fst pw1)"
    by (simp add: pw1_def distinct_subscript)
  show ?case
  proof (cases "(w = [] \<or> xid r < xid (hd w)) \<and> isReadRequest r")
    case True
    define F where "F = after_catch (serve_session sid rs (pw1, out @ [StorageResponse r]))"
    have step: "after_catch (serve_session sid (r # rs) (pw, out)) = F"
      using True by (simp add: Let_def pw1_def [symmetric] w_def [symmetric] F_def)
    from Cons [of pw1 "out @ [StorageResponse r]"]
    obtain served where
      b: "rs = served @ fst F"
      and a: "snd (snd F) = (out @ [StorageResponse r]) @ map StorageResponse served"
      and c: "\<forall>r \<in> set served. isReadRequest r"
      and e: "\<forall>k. requests_of (fst (snd F)) k = requests_of pw1 k"
      and f: "distinct (map fst pw1) \<longrightarrow> distinct (map fst (fst (snd F)))"
      unfolding F_def by blast
    have "r # rs = (r # served) @ fst F
       \<and> snd (snd F) = out @ map StorageResponse (r # served)
       \<and> (\<forall>x \<in> set (r # served). isReadRequest x)"
      using a b c True by simp
    then have "\<exists>served. r # rs = served @ fst F
       \<and> snd (snd F) = out @ map StorageResponse served
       \<and> (\<forall>x \<in> set served. isReadRequest x)"
      by (rule exI)
    moreover have "\<forall>k. requests_of (fst (snd F)) k = requests_of pw k" using e same1 by simp
    moreover have "distinct (map fst pw) \<longrightarrow> distinct (map fst (fst (snd F)))" using d1 f by blast
    ultimately show ?thesis unfolding step by blast
  next
    case False
    have step: "after_catch (serve_session sid (r # rs) (pw, out)) = (r # rs, pw1, out)"
      using False by (auto simp add: Let_def pw1_def [symmetric] w_def [symmetric])
    have "r # rs = [] @ fst (r # rs, pw1, out)
       \<and> snd (snd (r # rs, pw1, out)) = out @ map StorageResponse []
       \<and> (\<forall>x \<in> set ([] :: RequestForSession list). isReadRequest x)"
      by simp
    then have "\<exists>served. r # rs = served @ fst (r # rs, pw1, out)
       \<and> snd (snd (r # rs, pw1, out)) = out @ map StorageResponse served
       \<and> (\<forall>x \<in> set served. isReadRequest x)"
      by (rule exI)
    then show ?thesis unfolding step using same1 d1 by simp
  qed
qed


lemma after_catch_kept:
  "after_catch (case X of
       Normal (rest1, pw2, out2) \<Rightarrow> Normal (kept @ rest1, pw2, out2)
     | Throws (rest1, pw2, out2) \<Rightarrow> Throws (kept @ rest1, pw2, out2))
   = (kept @ fst (after_catch X), fst (snd (after_catch X)), snd (snd (after_catch X)))"
  by (cases X) (auto split: prod.splits)

lemma requests_of_kept:
  "requests_of ((if rs0 = [] then [] else [(sid0, rs0)]) @ m) k
     = (if k = sid0 \<and> rs0 \<noteq> [] then rs0 else requests_of m k)"
  by (simp add: requests_of_def)

lemma serve_sessions_any:
  assumes "distinct (map fst p)" "\<forall>e \<in> set p. \<forall>r \<in> set (snd e). session_id r = fst e"
  shows "(\<exists>new. snd (snd (after_catch (serve_sessions p (pw, out)))) = out @ map StorageResponse new
            \<and> (\<forall>r \<in> set new. isReadRequest r)
            \<and> (\<forall>k. requests_of p k
                   = of_session k new @ requests_of (fst (after_catch (serve_sessions p (pw, out)))) k))
       \<and> (\<forall>k. requests_of (fst (snd (after_catch (serve_sessions p (pw, out))))) k
              = requests_of pw k)
       \<and> (distinct (map fst pw)
            \<longrightarrow> distinct (map fst (fst (snd (after_catch (serve_sessions p (pw, out)))))))
       \<and> distinct (map fst (fst (after_catch (serve_sessions p (pw, out)))))
       \<and> set (map fst (fst (after_catch (serve_sessions p (pw, out))))) \<subseteq> set (map fst p)"
  using assms
proof (induction p arbitrary: pw out)
  case Nil
  have "snd (snd (after_catch (serve_sessions [] (pw, out)))) = out @ map StorageResponse []
            \<and> (\<forall>r \<in> set ([] :: RequestForSession list). isReadRequest r)
            \<and> (\<forall>k. requests_of [] k
                   = of_session k [] @ requests_of (fst (after_catch (serve_sessions [] (pw, out)))) k)"
    by (simp add: requests_of_Nil of_session_Nil)
  then have "\<exists>new. snd (snd (after_catch (serve_sessions [] (pw, out)))) = out @ map StorageResponse new
            \<and> (\<forall>r \<in> set new. isReadRequest r)
            \<and> (\<forall>k. requests_of [] k
                   = of_session k new @ requests_of (fst (after_catch (serve_sessions [] (pw, out)))) k)"
    by (rule exI)
  then show ?case by simp
next
  case (Cons e p)
  obtain sid0 rs where e: "e = (sid0, rs)" by (cases e)
  define F0 where "F0 = after_catch (serve_session sid0 rs (pw, out))"
  define rs0 where "rs0 = fst F0"
  define pw1 where "pw1 = fst (snd F0)"
  define out1 where "out1 = snd (snd F0)"
  have F0: "F0 = (rs0, pw1, out1)" by (simp add: rs0_def pw1_def out1_def)
  from serve_session_any [of rs sid0 pw out]
  obtain served0 where split0: "rs = served0 @ rs0"
    and o1: "out1 = out @ map StorageResponse served0"
    and reads0: "\<forall>r \<in> set served0. isReadRequest r"
    and same1: "\<forall>k. requests_of pw1 k = requests_of pw k"
    and d1: "distinct (map fst pw) \<longrightarrow> distinct (map fst pw1)"
    unfolding F0_def [symmetric] rs0_def pw1_def out1_def by blast
  have absent: "sid0 \<notin> fst ` set p" and dp: "distinct (map fst p)"
    using Cons.prems(1) e by simp_all
  have sess0: "\<forall>r \<in> set rs. session_id r = sid0" using Cons.prems(2) e by simp
  have sessp: "\<forall>e \<in> set p. \<forall>r \<in> set (snd e). session_id r = fst e" using Cons.prems(2) by simp
  have own: "of_session sid0 served0 = served0"
    using sess0 split0 by (intro of_session_same) simp
  have other: "\<And>k. k \<noteq> sid0 \<Longrightarrow> of_session k served0 = []"
    using sess0 split0 by (intro of_session_other) auto
  show ?case
  proof (cases "serve_session sid0 rs (pw, out)")
    case (Throws t)
    then have t: "t = (rs0, pw1, out1)" using F0 by (simp add: F0_def)
    have F: "after_catch (serve_sessions (e # p) (pw, out)) = ((sid0, rs0) # p, pw1, out1)"
      using Throws t by (simp add: e)
    have "snd (snd ((sid0, rs0) # p, pw1, out1)) = out @ map StorageResponse served0
            \<and> (\<forall>r \<in> set served0. isReadRequest r)
            \<and> (\<forall>k. requests_of (e # p) k
                   = of_session k served0 @ requests_of (fst ((sid0, rs0) # p, pw1, out1)) k)"
      using o1 reads0 split0 own other by (simp add: e requests_of_Cons)
    then have "\<exists>new. snd (snd ((sid0, rs0) # p, pw1, out1)) = out @ map StorageResponse new
            \<and> (\<forall>r \<in> set new. isReadRequest r)
            \<and> (\<forall>k. requests_of (e # p) k
                   = of_session k new @ requests_of (fst ((sid0, rs0) # p, pw1, out1)) k)"
      by (rule exI)
    then show ?thesis
      unfolding F using same1 d1 Cons.prems(1) by (simp add: e)
  next
    case (Normal t)
    then have t: "t = (rs0, pw1, out1)" using F0 by (simp add: F0_def)
    define kept where "kept = (if rs0 = [] then [] else [(sid0, rs0)])"
    define G where "G = after_catch (serve_sessions p (pw1, out1))"
    have F: "after_catch (serve_sessions (e # p) (pw, out)) = (kept @ fst G, fst (snd G), snd (snd G))"
      using Normal t by (simp add: e Let_def kept_def [symmetric] after_catch_kept G_def)
    from Cons.IH [OF dp sessp, of pw1 out1]
    obtain new1 where o2: "snd (snd G) = out1 @ map StorageResponse new1"
      and reads1: "\<forall>r \<in> set new1. isReadRequest r"
      and view1: "\<forall>k. requests_of p k = of_session k new1 @ requests_of (fst G) k"
      and same2: "\<forall>k. requests_of (fst (snd G)) k = requests_of pw1 k"
      and d2: "distinct (map fst pw1) \<longrightarrow> distinct (map fst (fst (snd G)))"
      and dG: "distinct (map fst (fst G))"
      and subG: "set (map fst (fst G)) \<subseteq> set (map fst p)"
      unfolding G_def by blast
    have "requests_of p sid0 = []" using absent by (rule requests_of_absent)
    then have none: "of_session sid0 new1 = []" "requests_of (fst G) sid0 = []"
      using view1 by simp_all
    have view: "\<forall>k. requests_of (e # p) k
        = of_session k (served0 @ new1) @ requests_of (kept @ fst G) k"
    proof
      fix k
      show "requests_of (e # p) k = of_session k (served0 @ new1) @ requests_of (kept @ fst G) k"
      proof (cases "k = sid0")
        case True
        then show ?thesis
          using split0 own none
          by (simp add: e requests_of_Cons of_session_append kept_def requests_of_kept)
      next
        case False
        then show ?thesis
          using view1 other [OF False]
          by (simp add: e requests_of_Cons of_session_append kept_def requests_of_kept)
      qed
    qed
    have "snd (snd (kept @ fst G, fst (snd G), snd (snd G)))
              = out @ map StorageResponse (served0 @ new1)
            \<and> (\<forall>r \<in> set (served0 @ new1). isReadRequest r)
            \<and> (\<forall>k. requests_of (e # p) k
                   = of_session k (served0 @ new1)
                     @ requests_of (fst (kept @ fst G, fst (snd G), snd (snd G))) k)"
      using o1 o2 reads0 reads1 view by (simp add: ball_Un)
    then have ex: "\<exists>new. snd (snd (kept @ fst G, fst (snd G), snd (snd G)))
              = out @ map StorageResponse new
            \<and> (\<forall>r \<in> set new. isReadRequest r)
            \<and> (\<forall>k. requests_of (e # p) k
                   = of_session k new
                     @ requests_of (fst (kept @ fst G, fst (snd G), snd (snd G))) k)"
      by (rule exI)
    have notin: "sid0 \<notin> set (map fst (fst G))" using subG absent by auto
    have dk: "distinct (map fst (kept @ fst G))" using dG notin by (simp add: kept_def)
    have sk: "set (map fst (kept @ fst G)) \<subseteq> set (map fst (e # p))"
      using subG by (auto simp add: kept_def e)
    have sm: "\<forall>k. requests_of (fst (snd G)) k = requests_of pw k" using same1 same2 by simp
    have dd: "distinct (map fst pw) \<longrightarrow> distinct (map fst (fst (snd G)))" using d1 d2 by blast
    show ?thesis
      unfolding F using ex sm dd dk sk by simp
  qed
qed


lemma subseq_skip_reads:
  assumes "\<forall>r \<in> set xs. Q r" "\<forall>r \<in> set W. \<not> Q r" "subseq W (xs @ ys)"
  shows "subseq W ys"
  using assms
proof (induction xs)
  case Nil
  then show ?case by simp
next
  case (Cons x xs)
  show ?case
  proof (cases W)
    case Nil
    then show ?thesis by simp
  next
    case (Cons w W')
    have "Q x" using Cons.prems(1) by simp
    moreover have "\<not> Q w" using Cons.prems(2) \<open>W = w # W'\<close> by simp
    ultimately have "w \<noteq> x" by blast
    then have "subseq W (xs @ ys)"
      using Cons.prems(3) \<open>W = w # W'\<close> by (simp add: subseq_Cons2_neq)
    then show ?thesis using Cons.IH Cons.prems(1) Cons.prems(2) by simp
  qed
qed

lemma writes_reads: "\<forall>r \<in> set xs. isReadRequest r \<Longrightarrow> writes xs = []"
  by (induction xs) (simp_all add: writes_def)

lemma serve_reads_Returns:
  "\<exists>f. serve_reads s = Returns f
     \<and> after_catch f = s\<lparr>
         pending_requests :=
           fst (after_catch (serve_sessions (pending_requests s)
                  (pending_write_requests s, responses_queue s))),
         pending_write_requests :=
           fst (snd (after_catch (serve_sessions (pending_requests s)
                  (pending_write_requests s, responses_queue s)))),
         responses_queue :=
           snd (snd (after_catch (serve_sessions (pending_requests s)
                  (pending_write_requests s, responses_queue s))))\<rparr>"
  by (cases "serve_sessions (pending_requests s) (pending_write_requests s, responses_queue s)")
     (auto simp add: serve_reads_def split: prod.splits)

lemma session_order_serve:
  assumes inv: "session_order sid E K s"
  shows "\<exists>f. serve_reads s = Returns f \<and> session_order sid E K (after_catch f)
            \<and> requests_queue (after_catch f) = requests_queue s
            \<and> committed_queue (after_catch f) = committed_queue s"
proof -
  note d = session_orderD [OF inv]
  define F where "F = after_catch (serve_sessions (pending_requests s)
                  (pending_write_requests s, responses_queue s))"
  define s' where "s' = s\<lparr>pending_requests := fst F, pending_write_requests := fst (snd F),
                          responses_queue := snd (snd F)\<rparr>"
  from serve_reads_Returns [of s]
  obtain f where f: "serve_reads s = Returns f" and af: "after_catch f = s'"
    unfolding F_def [symmetric] s'_def [symmetric] by blast
  have own: "\<forall>e \<in> set (pending_requests s). \<forall>r \<in> set (snd e). session_id r = fst e"
  proof (intro ballI)
    fix e r assume e: "e \<in> set (pending_requests s)" and r: "r \<in> set (snd e)"
    have "(fst e, snd e) \<in> set (pending_requests s)" using e by simp
    with d(3) have "requests_of (pending_requests s) (fst e) = snd e"
      by (rule requests_of_member)
    then show "session_id r = fst e" using d(6) [of r "fst e"] r by simp
  qed
  from serve_sessions_any [OF d(3) own, of "pending_write_requests s" "responses_queue s"]
  obtain new where out: "snd (snd F) = responses_queue s @ map StorageResponse new"
    and reads: "\<forall>r \<in> set new. isReadRequest r"
    and view: "\<forall>k. requests_of (pending_requests s) k = of_session k new @ requests_of (fst F) k"
    and same: "\<forall>k. requests_of (fst (snd F)) k = requests_of (pending_write_requests s) k"
    and dw: "distinct (map fst (pending_write_requests s)) \<longrightarrow> distinct (map fst (fst (snd F)))"
    and dp: "distinct (map fst (fst F))"
    unfolding F_def by blast
  have g: "requests_queue s' = requests_queue s" "committed_queue s' = committed_queue s"
    "errors s' = errors s" "shutdown_called s' = shutdown_called s"
    "pending_requests s' = fst F" "pending_write_requests s' = fst (snd F)"
    "responses_queue s' = responses_queue s @ map StorageResponse new"
    using out by (simp_all add: s'_def)
  have ap: "applied_requests (responses_queue s')
      = applied_requests (responses_queue s) @ new"
    by (simp add: g applied_requests_append applied_requests_StorageResponse)
  have rk: "\<And>k. \<forall>r \<in> set (of_session k new). isReadRequest r"
    using reads by (simp add: set_of_session)
  have "session_order sid E K s'"
  proof (rule session_orderI)
    show "errors s' = []" using d(1) by (simp add: g)
    show "\<not> shutdown_called s'" using d(2) by (simp add: g)
    show "distinct (map fst (pending_requests s'))" using dp by (simp add: g)
    show "distinct (map fst (pending_write_requests s'))" using dw d(4) by (simp add: g)
    show "responses_queue s' = map StorageResponse (applied_requests (responses_queue s'))"
      unfolding ap using d(5) by (simp add: g)
    show "of_session sid E =
        of_session sid (applied_requests (responses_queue s'))
        @ requests_of (pending_requests s') sid @ of_session sid (requests_queue s')"
      unfolding ap using d(9) view by (simp add: g(1) g(5) of_session_append)
    show "requests_of (pending_write_requests s') sid = writes (requests_of (pending_requests s') sid)"
    proof -
      have "requests_of (pending_write_requests s') sid
          = writes (of_session sid new @ requests_of (fst F) sid)"
        using d(10) view same by (simp add: g)
      then show ?thesis using writes_reads [OF rk [of sid]] by (simp add: writes_append g)
    qed
    show "sorted_wrt (<) (map xid (of_session sid E))" by (rule d(11))
    show "sorted_wrt (<) (map xid (of_session sid K))" by (rule d(12))
    show "distinct (of_session sid (committed_queue s'))" using d(13) by (simp add: g)
  next
    fix k r assume "r \<in> set (requests_of (pending_requests s') k)"
    then have "r \<in> set (requests_of (pending_requests s) k)" using view by (simp add: g)
    then show "session_id r = k" by (rule d(6))
  next
    fix k
    have a: "\<forall>r \<in> set (of_session k new). isReadRequest r" by (rule rk)
    have b: "\<forall>r \<in> set (requests_of (pending_write_requests s) k). \<not> isReadRequest r"
      using d(8) by blast
    have c: "subseq (requests_of (pending_write_requests s) k)
        (of_session k new @ requests_of (fst F) k)"
      using d(7) [of k] view by simp
    from a b c
    have "subseq (requests_of (pending_write_requests s) k) (requests_of (fst F) k)"
      by (rule subseq_skip_reads)
    then show "subseq (requests_of (pending_write_requests s') k) (requests_of (pending_requests s') k)"
      using same by (simp add: g)
  next
    fix k r assume "r \<in> set (requests_of (pending_write_requests s') k)"
    then have "r \<in> set (requests_of (pending_write_requests s) k)" using same by (simp add: g)
    then show "\<not> isReadRequest r" by (rule d(8))
  next
    fix c assume "c \<in> set (of_session sid (committed_queue s'))"
    then have "c \<in> set (of_session sid (committed_queue s))" by (simp add: g)
    from d(14) [OF this]
    have w: "\<not> isReadRequest c" and k: "c \<in> set K"
      and m: "c \<in> set (requests_of (pending_requests s) sid) \<or> c \<in> set (requests_queue s)"
      by blast+
    have "c \<in> set (requests_of (pending_requests s') sid) \<or> c \<in> set (requests_queue s')"
    proof (cases "c \<in> set (requests_queue s)")
      case True
      then show ?thesis by (simp add: g)
    next
      case False
      then have "c \<in> set (of_session sid new @ requests_of (fst F) sid)" using m view by simp
      moreover have "c \<notin> set (of_session sid new)" using rk [of sid] w by blast
      ultimately show ?thesis by (simp add: g)
    qed
    then show "\<not> isReadRequest c \<and> c \<in> set K
            \<and> (c \<in> set (requests_of (pending_requests s') sid) \<or> c \<in> set (requests_queue s'))"
      using w k by blast
  next
    fix a assume "a \<in> set (of_session sid (applied_requests (responses_queue s')))"
    then have "a \<in> set (of_session sid (applied_requests (responses_queue s)))
        \<or> a \<in> set (of_session sid new)"
      by (auto simp add: ap of_session_append)
    then show "isReadRequest a \<or> a \<in> set K" using d(15) rk [of sid] by blast
  qed
  then show ?thesis using f af g by simp
qed


lemma subseq_tl: "subseq xs ys \<Longrightarrow> subseq (tl xs) (tl ys)"
proof (cases xs)
  case Nil
  then show ?thesis by simp
next
  case (Cons x xs')
  assume sub: "subseq xs ys"
  then obtain y ys' where ys: "ys = y # ys'" using Cons by (cases ys) simp_all
  show ?thesis
  proof (cases "x = y")
    case True
    then show ?thesis using sub Cons ys by simp
  next
    case False
    then have "subseq (x # xs') ys'" using sub Cons ys by simp
    then have "subseq xs' ys'" by (rule subseq_Cons')
    then show ?thesis using Cons ys by simp
  qed
qed

lemma session_order_frame:
  assumes inv: "session_order sid E K s"
    and same: "errors s' = errors s" "shutdown_called s' = shutdown_called s"
      "requests_queue s' = requests_queue s"
    and dist: "distinct (map fst (pending_requests s'))"
      "distinct (map fst (pending_write_requests s'))"
    and resp: "responses_queue s' = responses_queue s @ map StorageResponse extra"
      "of_session sid extra = []"
    and G1: "\<And>k r. r \<in> set (requests_of (pending_requests s') k)
               \<Longrightarrow> r \<in> set (requests_of (pending_requests s) k)"
    and G2: "\<And>k. subseq (requests_of (pending_write_requests s') k)
               (requests_of (pending_requests s') k)"
    and G3: "\<And>k r. r \<in> set (requests_of (pending_write_requests s') k)
               \<Longrightarrow> r \<in> set (requests_of (pending_write_requests s) k)"
    and own: "requests_of (pending_requests s') sid = requests_of (pending_requests s) sid"
      "requests_of (pending_write_requests s') sid = requests_of (pending_write_requests s) sid"
    and cq: "distinct (of_session sid (committed_queue s'))"
      "set (of_session sid (committed_queue s')) \<subseteq> set (of_session sid (committed_queue s))"
  shows "session_order sid E K s'"
proof -
  note d = session_orderD [OF inv]
  have ap: "applied_requests (responses_queue s') = applied_requests (responses_queue s) @ extra"
    by (simp add: resp(1) applied_requests_append applied_requests_StorageResponse)
  have aps: "of_session sid (applied_requests (responses_queue s'))
      = of_session sid (applied_requests (responses_queue s))"
    by (simp add: ap of_session_append resp(2))
  show ?thesis
  proof (rule session_orderI)
    show "errors s' = []" using d(1) by (simp add: same)
    show "\<not> shutdown_called s'" using d(2) by (simp add: same)
    show "distinct (map fst (pending_requests s'))" by (rule dist(1))
    show "distinct (map fst (pending_write_requests s'))" by (rule dist(2))
    show "responses_queue s' = map StorageResponse (applied_requests (responses_queue s'))"
      unfolding ap using d(5) by (simp add: resp(1))
    show "of_session sid E =
        of_session sid (applied_requests (responses_queue s'))
        @ requests_of (pending_requests s') sid @ of_session sid (requests_queue s')"
      unfolding aps own same by (rule d(9))
    show "requests_of (pending_write_requests s') sid = writes (requests_of (pending_requests s') sid)"
      unfolding own by (rule d(10))
    show "sorted_wrt (<) (map xid (of_session sid E))" by (rule d(11))
    show "sorted_wrt (<) (map xid (of_session sid K))" by (rule d(12))
    show "distinct (of_session sid (committed_queue s'))" by (rule cq(1))
  next
    fix k r assume "r \<in> set (requests_of (pending_requests s') k)"
    then have "r \<in> set (requests_of (pending_requests s) k)" by (rule G1)
    then show "session_id r = k" by (rule d(6))
  next
    fix k
    show "subseq (requests_of (pending_write_requests s') k) (requests_of (pending_requests s') k)"
      by (rule G2)
  next
    fix k r assume "r \<in> set (requests_of (pending_write_requests s') k)"
    then have "r \<in> set (requests_of (pending_write_requests s) k)" by (rule G3)
    then show "\<not> isReadRequest r" by (rule d(8))
  next
    fix c assume "c \<in> set (of_session sid (committed_queue s'))"
    then have "c \<in> set (of_session sid (committed_queue s))" using cq(2) by blast
    from d(14) [OF this]
    show "\<not> isReadRequest c \<and> c \<in> set K
            \<and> (c \<in> set (requests_of (pending_requests s') sid) \<or> c \<in> set (requests_queue s'))"
      unfolding own same .
  next
    fix a assume "a \<in> set (of_session sid (applied_requests (responses_queue s')))"
    then have "a \<in> set (of_session sid (applied_requests (responses_queue s)))"
      unfolding aps .
    then show "isReadRequest a \<or> a \<in> set K" by (rule d(15))
  qed
qed


lemma session_order_frame_eq:
  assumes inv: "session_order sid E K s"
    and same: "errors s' = errors s" "shutdown_called s' = shutdown_called s"
      "requests_queue s' = requests_queue s"
    and dist: "distinct (map fst (pending_requests s'))"
      "distinct (map fst (pending_write_requests s'))"
    and resp: "responses_queue s' = responses_queue s @ map StorageResponse extra"
      "of_session sid extra = []"
    and vp: "\<forall>k. requests_of (pending_requests s') k = requests_of (pending_requests s) k"
    and vw: "\<forall>k. requests_of (pending_write_requests s') k
                = requests_of (pending_write_requests s) k"
    and cq: "distinct (of_session sid (committed_queue s'))"
      "set (of_session sid (committed_queue s')) \<subseteq> set (of_session sid (committed_queue s))"
  shows "session_order sid E K s'"
  using inv same dist resp
proof (rule session_order_frame)
  note d = session_orderD [OF inv]
  fix k
  show "subseq (requests_of (pending_write_requests s') k) (requests_of (pending_requests s') k)"
    using d(7) [of k] vp vw by simp
  show "requests_of (pending_requests s') sid = requests_of (pending_requests s) sid"
    using vp by simp
  show "requests_of (pending_write_requests s') sid = requests_of (pending_write_requests s) sid"
    using vw by simp
  show "distinct (of_session sid (committed_queue s'))" by (rule cq(1))
  show "set (of_session sid (committed_queue s')) \<subseteq> set (of_session sid (committed_queue s))"
    by (rule cq(2))
next
  fix k r assume "r \<in> set (requests_of (pending_requests s') k)"
  then show "r \<in> set (requests_of (pending_requests s) k)" using vp by simp
next
  fix k r assume "r \<in> set (requests_of (pending_write_requests s') k)"
  then show "r \<in> set (requests_of (pending_write_requests s) k)" using vw by simp
qed


lemma session_order_apply_committed:
  assumes inv: "session_order sid E K s0"
    and q: "committed_queue s0 = c # cq"
    and empty: "requests_queue s0 = []"
  shows "\<exists>f. apply_committed c (s0\<lparr>committed_queue := cq\<rparr>) = Returns f
            \<and> session_order sid E K (after_catch f)
            \<and> requests_queue (after_catch f) = []
            \<and> committed_queue (after_catch f) = cq"
proof -
  note d = session_orderD [OF inv]
  define k where "k = session_id c"
  define P where "P = requests_of (pending_requests s0) k"
  define W where "W = requests_of (pending_write_requests s0) k"
  define s where "s = s0\<lparr>committed_queue := cq\<rparr>"
  define pw1 where "pw1 = subscript (pending_write_requests s0) k"
  define s1 where "s1 = s\<lparr>pending_write_requests := pw1\<rparr>"
  define p1 where "p1 = subscript (pending_requests s0) k"
  define s2 where "s2 = s1\<lparr>pending_requests := p1\<rparr>"
  have w1: "requests_of pw1 k = W" by (simp add: pw1_def W_def requests_of_subscript)
  have pl: "requests_of p1 k = P" by (simp add: p1_def P_def requests_of_subscript)
  have WP: "subseq W P" unfolding W_def P_def by (rule d(7))
  have cqs: "of_session sid (committed_queue s0)
      = (if k = sid then c # of_session sid cq else of_session sid cq)"
    by (simp add: q of_session_Cons k_def)
  have dcq: "distinct (of_session sid cq)"
    "set (of_session sid cq) \<subseteq> set (of_session sid (committed_queue s0))"
    using d(13) by (auto simp add: cqs split: if_splits)
  have inv1: "session_order sid E K s1"
  proof (rule session_order_frame_eq [where extra = "[]", OF inv])
    show "responses_queue s1 = responses_queue s0 @ map StorageResponse []"
      by (simp add: s1_def s_def)
    show "of_session sid [] = []" by (rule of_session_Nil)
    show "distinct (map fst (pending_requests s1))" using d(3) by (simp add: s1_def s_def)
    show "distinct (map fst (pending_write_requests s1))"
      using d(4) by (simp add: s1_def pw1_def distinct_subscript)
    show "distinct (of_session sid (committed_queue s1))" using dcq(1) by (simp add: s1_def s_def)
    show "set (of_session sid (committed_queue s1)) \<subseteq> set (of_session sid (committed_queue s0))"
      using dcq(2) by (simp add: s1_def s_def)
    show "\<forall>k'. requests_of (pending_requests s1) k' = requests_of (pending_requests s0) k'"
      by (simp add: s1_def s_def)
    show "\<forall>k'. requests_of (pending_write_requests s1) k'
        = requests_of (pending_write_requests s0) k'"
      by (simp add: s1_def pw1_def requests_of_subscript)
  qed (simp_all add: s1_def s_def)
  have inv2: "session_order sid E K s2"
  proof (rule session_order_frame_eq [where extra = "[]", OF inv])
    show "responses_queue s2 = responses_queue s0 @ map StorageResponse []"
      by (simp add: s2_def s1_def s_def)
    show "of_session sid [] = []" by (rule of_session_Nil)
    show "distinct (map fst (pending_requests s2))"
      using d(3) by (simp add: s2_def p1_def distinct_subscript)
    show "distinct (map fst (pending_write_requests s2))"
      using d(4) by (simp add: s2_def s1_def pw1_def distinct_subscript)
    show "distinct (of_session sid (committed_queue s2))"
      using dcq(1) by (simp add: s2_def s1_def s_def)
    show "set (of_session sid (committed_queue s2)) \<subseteq> set (of_session sid (committed_queue s0))"
      using dcq(2) by (simp add: s2_def s1_def s_def)
    show "\<forall>k'. requests_of (pending_requests s2) k' = requests_of (pending_requests s0) k'"
      by (simp add: s2_def p1_def requests_of_subscript)
    show "\<forall>k'. requests_of (pending_write_requests s2) k'
        = requests_of (pending_write_requests s0) k'"
      by (simp add: s2_def s1_def pw1_def requests_of_subscript)
  qed (simp_all add: s2_def s1_def s_def)
  have q1: "requests_queue s1 = []" "committed_queue s1 = cq"
    using empty by (simp_all add: s1_def s_def)
  have q2: "requests_queue s2 = []" "committed_queue s2 = cq"
    using empty by (simp_all add: s2_def s1_def s_def)
  have mine: "c \<in> set P \<and> \<not> isReadRequest c \<and> c \<in> set K \<and> c \<notin> set (of_session sid cq)
      \<and> W = writes P"
    if "k = sid"
  proof -
    have "c \<in> set (of_session sid (committed_queue s0))" using that by (simp add: cqs)
    from d(14) [OF this] empty
    have "c \<in> set P" "\<not> isReadRequest c" "c \<in> set K" using that by (simp_all add: P_def)
    moreover have "c \<notin> set (of_session sid cq)" using d(13) that by (simp add: cqs)
    moreover have "W = writes P" using d(10) that by (simp add: W_def P_def)
    ultimately show ?thesis by blast
  qed
  show ?thesis
  proof (cases "W = []")
    case True
    define sf where "sf = s1\<lparr>responses_queue := responses_queue s1 @ [StorageResponse c]\<rparr>"
    have run: "apply_committed c s = Returns (Normal sf)"
      using True w1
      by (simp add: apply_committed_def Let_def k_def [symmetric] s_def
          pw1_def [symmetric] s1_def sf_def)
    have other: "k \<noteq> sid"
    proof
      assume "k = sid"
      from mine [OF this] have "c \<in> set W" by (simp add: set_writes)
      then show False using True by simp
    qed
    have invf: "session_order sid E K sf"
    proof (rule session_order_frame_eq [where extra = "[c]", OF inv])
      show "responses_queue sf = responses_queue s0 @ map StorageResponse [c]"
        by (simp add: sf_def s1_def s_def)
      show "of_session sid [c] = []"
        using other by (simp add: of_session_Cons of_session_Nil k_def)
      show "distinct (map fst (pending_requests sf))"
        using d(3) by (simp add: sf_def s1_def s_def)
      show "distinct (map fst (pending_write_requests sf))"
        using d(4) by (simp add: sf_def s1_def pw1_def distinct_subscript)
      show "distinct (of_session sid (committed_queue sf))"
        using dcq(1) by (simp add: sf_def s1_def s_def)
      show "set (of_session sid (committed_queue sf)) \<subseteq> set (of_session sid (committed_queue s0))"
        using dcq(2) by (simp add: sf_def s1_def s_def)
      show "\<forall>k'. requests_of (pending_requests sf) k' = requests_of (pending_requests s0) k'"
        by (simp add: sf_def s1_def s_def)
      show "\<forall>k'. requests_of (pending_write_requests sf) k'
          = requests_of (pending_write_requests s0) k'"
        by (simp add: sf_def s1_def pw1_def requests_of_subscript)
    qed (simp_all add: sf_def s1_def s_def)
    have qf: "requests_queue sf = []" "committed_queue sf = cq"
      using empty by (simp_all add: sf_def s1_def s_def)
    show ?thesis using run invf qf by (simp add: s_def)
  next
    case Wne: False
    then have Pne: "P \<noteq> []" using WP by auto
    show ?thesis
    proof (cases "xid (hd W) = xid c")
      case False
      have "apply_committed c s = Returns (Throws s1)"
        using False Wne w1
        by (simp add: apply_committed_def Let_def k_def [symmetric] s_def
            pw1_def [symmetric] s1_def)
      then show ?thesis using inv1 q1 by (simp add: s_def)
    next
      case hdW: True
      show ?thesis
      proof (cases "xid (hd P) = xid c")
        case False
        have "apply_committed c s = Returns (Throws s2)"
          using False hdW Wne Pne w1 pl
          by (simp add: apply_committed_def Let_def k_def [symmetric] s_def
              pw1_def [symmetric] p1_def [symmetric] s1_def s2_def)
        then show ?thesis using inv2 q2 by (simp add: s_def)
      next
        case hdP: True
        define s3 where "s3 = s2\<lparr>
            responses_queue := responses_queue s2 @ [StorageResponse c],
            pending_write_requests :=
              (if tl W = [] then AList.delete k pw1 else AList.update k (tl W) pw1),
            pending_requests :=
              (if tl P = [] then AList.delete k p1 else AList.update k (tl P) p1)\<rparr>"
        have run: "apply_committed c s = Returns (Normal s3)"
          using hdP hdW Wne Pne w1 pl
          by (simp add: apply_committed_def Let_def k_def [symmetric] s_def
              pw1_def [symmetric] p1_def [symmetric] s1_def s2_def s3_def)
        have vp: "\<And>k'. requests_of (pending_requests s3) k'
            = (if k' = k then tl P else requests_of (pending_requests s0) k')"
          by (simp add: s3_def requests_of_erase_head p1_def requests_of_subscript)
        have vw: "\<And>k'. requests_of (pending_write_requests s3) k'
            = (if k' = k then tl W else requests_of (pending_write_requests s0) k')"
          by (simp add: s3_def requests_of_erase_head pw1_def requests_of_subscript)
        have rq: "responses_queue s3 = responses_queue s0 @ map StorageResponse [c]"
          by (simp add: s3_def s2_def s1_def s_def)
        have q3: "requests_queue s3 = []" "committed_queue s3 = cq"
          "errors s3 = errors s0" "shutdown_called s3 = shutdown_called s0"
          using empty by (simp_all add: s3_def s2_def s1_def s_def)
        have dp3: "distinct (map fst (pending_requests s3))"
          using d(3) by (simp add: s3_def p1_def distinct_subscript distinct_update distinct_delete)
        have dw3: "distinct (map fst (pending_write_requests s3))"
          using d(4) by (simp add: s3_def pw1_def distinct_subscript distinct_update distinct_delete)
        have G1: "r \<in> set (requests_of (pending_requests s0) k')"
          if "r \<in> set (requests_of (pending_requests s3) k')" for k' r
        proof (cases "k' = k")
          case True
          then have "r \<in> set (tl P)" using that by (simp add: vp)
          then have "r \<in> set P" by (rule list.set_sel(2) [rotated]) (rule Pne)
          then show ?thesis using True by (simp add: P_def)
        next
          case False
          then show ?thesis using that by (simp add: vp)
        qed
        have G2: "subseq (requests_of (pending_write_requests s3) k')
            (requests_of (pending_requests s3) k')" for k'
        proof (cases "k' = k")
          case True
          then show ?thesis using subseq_tl [OF WP] by (simp add: vp vw)
        next
          case False
          then show ?thesis using d(7) [of k'] by (simp add: vp vw)
        qed
        have G3: "r \<in> set (requests_of (pending_write_requests s0) k')"
          if "r \<in> set (requests_of (pending_write_requests s3) k')" for k' r
        proof (cases "k' = k")
          case True
          then have "r \<in> set (tl W)" using that by (simp add: vw)
          then have "r \<in> set W" by (rule list.set_sel(2) [rotated]) (rule Wne)
          then show ?thesis using True by (simp add: W_def)
        next
          case False
          then show ?thesis using that by (simp add: vw)
        qed
        have inv3: "session_order sid E K s3"
        proof (cases "k = sid")
          case False
          show ?thesis
          proof (rule session_order_frame [where extra = "[c]", OF inv])
            show "responses_queue s3 = responses_queue s0 @ map StorageResponse [c]" by (rule rq)
            show "of_session sid [c] = []"
              using False by (simp add: of_session_Cons of_session_Nil k_def)
            show "distinct (map fst (pending_requests s3))" by (rule dp3)
            show "distinct (map fst (pending_write_requests s3))" by (rule dw3)
            show "requests_of (pending_requests s3) sid = requests_of (pending_requests s0) sid"
              using False by (simp add: vp)
            show "requests_of (pending_write_requests s3) sid
                = requests_of (pending_write_requests s0) sid"
              using False by (simp add: vw)
            show "distinct (of_session sid (committed_queue s3))" using dcq(1) by (simp add: q3)
            show "set (of_session sid (committed_queue s3))
                \<subseteq> set (of_session sid (committed_queue s0))"
              using dcq(2) by (simp add: q3)
            show "errors s3 = errors s0" by (rule q3(3))
            show "shutdown_called s3 = shutdown_called s0" by (rule q3(4))
            show "requests_queue s3 = requests_queue s0" using empty by (simp add: q3)
          next
            fix k' r assume "r \<in> set (requests_of (pending_requests s3) k')"
            then show "r \<in> set (requests_of (pending_requests s0) k')" by (rule G1)
          next
            fix k'
            show "subseq (requests_of (pending_write_requests s3) k')
                (requests_of (pending_requests s3) k')"
              by (rule G2)
          next
            fix k' r assume "r \<in> set (requests_of (pending_write_requests s3) k')"
            then show "r \<in> set (requests_of (pending_write_requests s0) k')" by (rule G3)
          qed
        next
          case True
          from mine [OF True]
          have cP: "c \<in> set P" and w: "\<not> isReadRequest c" and cK: "c \<in> set K"
            and fresh: "c \<notin> set (of_session sid cq)" and WPw: "W = writes P"
            by blast+
          have Ps: "P = requests_of (pending_requests s0) sid" using True by (simp add: P_def)
          have Psub: "set P \<subseteq> set (of_session sid E)"
            unfolding d(9) Ps by auto
          have "hd P \<in> set P" using Pne by simp
          then have hdc: "hd P = c"
            using same_xid_same_request [OF d(11), of "hd P" c] cP Psub hdP by blast
          have Pc: "P = c # tl P" using Pne hdc by (cases P) simp_all
          have tlW: "tl W = writes (tl P)"
          proof -
            have "W = writes (c # tl P)" using WPw Pc by simp
            then show ?thesis using w by (simp add: writes_Cons)
          qed
          have va: "applied_requests (responses_queue s3)
              = applied_requests (responses_queue s0) @ [c]"
            by (simp add: rq applied_requests_append)
          show ?thesis
          proof (rule session_orderI)
            show "errors s3 = []" using d(1) by (simp add: q3)
            show "\<not> shutdown_called s3" using d(2) by (simp add: q3)
            show "distinct (map fst (pending_requests s3))" by (rule dp3)
            show "distinct (map fst (pending_write_requests s3))" by (rule dw3)
            show "responses_queue s3 = map StorageResponse (applied_requests (responses_queue s3))"
              unfolding va using d(5) by (simp add: rq)
            show "of_session sid E =
                of_session sid (applied_requests (responses_queue s3))
                @ requests_of (pending_requests s3) sid @ of_session sid (requests_queue s3)"
            proof -
              have "of_session sid E = of_session sid (applied_requests (responses_queue s0)) @ P"
                using d(9) empty by (simp add: Ps of_session_Nil)
              also have "\<dots> = of_session sid (applied_requests (responses_queue s0)) @ [c] @ tl P"
                using Pc by simp
              finally show ?thesis
                using True
                by (simp add: va vp q3 of_session_append of_session_Cons of_session_Nil k_def)
            qed
            show "requests_of (pending_write_requests s3) sid
                = writes (requests_of (pending_requests s3) sid)"
              using True tlW by (simp add: vp vw)
            show "sorted_wrt (<) (map xid (of_session sid E))" by (rule d(11))
            show "sorted_wrt (<) (map xid (of_session sid K))" by (rule d(12))
            show "distinct (of_session sid (committed_queue s3))" using dcq(1) by (simp add: q3)
          next
            fix k' r assume "r \<in> set (requests_of (pending_requests s3) k')"
            then have "r \<in> set (requests_of (pending_requests s0) k')" by (rule G1)
            then show "session_id r = k'" by (rule d(6))
          next
            fix k'
            show "subseq (requests_of (pending_write_requests s3) k')
                (requests_of (pending_requests s3) k')"
              by (rule G2)
          next
            fix k' r assume "r \<in> set (requests_of (pending_write_requests s3) k')"
            then have "r \<in> set (requests_of (pending_write_requests s0) k')" by (rule G3)
            then show "\<not> isReadRequest r" by (rule d(8))
          next
            fix c' assume m: "c' \<in> set (of_session sid (committed_queue s3))"
            then have m': "c' \<in> set (of_session sid cq)" by (simp add: q3)
            then have ne: "c' \<noteq> c" using fresh by blast
            have "c' \<in> set (of_session sid (committed_queue s0))" using m' dcq(2) by blast
            from d(14) [OF this] empty
            have f: "\<not> isReadRequest c'" "c' \<in> set K" "c' \<in> set P"
              by (simp_all add: Ps)
            have "c' \<in> set (c # tl P)" using f(3) Pc by simp
            then have "c' \<in> set (tl P)" using ne by simp
            then have "c' \<in> set (requests_of (pending_requests s3) sid)"
              using True by (simp add: vp)
            then show "\<not> isReadRequest c' \<and> c' \<in> set K
                \<and> (c' \<in> set (requests_of (pending_requests s3) sid)
                     \<or> c' \<in> set (requests_queue s3))"
              using f by blast
          next
            fix a assume "a \<in> set (of_session sid (applied_requests (responses_queue s3)))"
            then have "a \<in> set (of_session sid (applied_requests (responses_queue s0))) \<or> a = c"
              by (auto simp add: va of_session_append set_of_session)
            then show "isReadRequest a \<or> a \<in> set K" using d(15) cK by blast
          qed
        qed
        show ?thesis using run inv3 q3 by (simp add: s_def)
      qed
    qed
  qed
qed


lemma session_order_apply_commits:
  assumes "session_order sid E K s" "requests_queue s = []"
  shows "\<exists>f. apply_commits n s = Returns f \<and> session_order sid E K (after_catch f)"
  using assms
proof (induction n arbitrary: s)
  case 0
  then show ?case by simp
next
  case (Suc n)
  show ?case
  proof (cases "committed_queue s")
    case Nil
    then have "apply_commits (Suc n) s = apply_commits n s" by simp
    then show ?thesis using Suc.IH [OF Suc.prems] by simp
  next
    case (Cons c cq)
    from session_order_apply_committed [OF Suc.prems(1) Cons Suc.prems(2)]
    obtain f where f: "apply_committed c (s\<lparr>committed_queue := cq\<rparr>) = Returns f"
      and inv: "session_order sid E K (after_catch f)"
      and empty: "requests_queue (after_catch f) = []"
      by blast
    have step: "apply_commits (Suc n) s = and_then (Returns f) (apply_commits n)"
      using Cons f by simp
    show ?thesis
    proof (cases f)
      case (Normal s')
      then have "apply_commits (Suc n) s = apply_commits n s'"
        using step by (simp add: and_then_def)
      moreover have "\<exists>g. apply_commits n s' = Returns g \<and> session_order sid E K (after_catch g)"
        using inv empty Normal by (intro Suc.IH) simp_all
      ultimately show ?thesis by simp
    next
      case (Throws s')
      then have "apply_commits (Suc n) s = Returns (Throws s')"
        using step by (simp add: and_then_def)
      then show ?thesis using inv Throws by simp
    qed
  qed
qed

lemma session_order_iteration:
  assumes inv: "session_order sid E K s"
  shows "\<exists>s'. run3_iteration s = Returns s' \<and> session_order sid E K s'"
proof -
  note d = session_orderD [OF inv]
  define s2 where "s2 = drain_requests (length (requests_queue s)) s"
  have e: "drain_errors s = Returns (Normal s)" using d(1) by (simp add: drain_errors_def)
  have inv2: "session_order sid E K s2" and q2: "requests_queue s2 = []"
    using session_order_drain [OF inv] by (simp_all add: s2_def)
  from session_order_serve [OF inv2]
  obtain g where r: "serve_reads s2 = Returns g"
    and inv3: "session_order sid E K (after_catch g)"
    and q3: "requests_queue (after_catch g) = requests_queue s2"
    by blast
  have body: "run3_body s = and_then (Returns g) (apply_commits (length (committed_queue s)))"
    using e r by (simp add: run3_body_def and_then_def Let_def s2_def)
  have "\<exists>f. run3_body s = Returns f \<and> session_order sid E K (after_catch f)"
  proof (cases g)
    case (Throws s3)
    then have "run3_body s = Returns (Throws s3)" using body by (simp add: and_then_def)
    then show ?thesis using inv3 Throws by simp
  next
    case (Normal s3)
    then have b: "run3_body s = apply_commits (length (committed_queue s)) s3"
      using body by (simp add: and_then_def)
    have "session_order sid E K s3" "requests_queue s3 = []"
      using inv3 q3 q2 Normal by simp_all
    then have "\<exists>f. apply_commits (length (committed_queue s)) s3 = Returns f
        \<and> session_order sid E K (after_catch f)"
      by (rule session_order_apply_commits)
    then show ?thesis using b by simp
  qed
  then obtain f where "run3_body s = Returns f" and inv4: "session_order sid E K (after_catch f)"
    by blast
  then have "run3_iteration s = Returns (after_catch f)"
    using d(2) by (simp add: run3_iteration_def)
  then show ?thesis using inv4 by blast
qed

lemma session_order_run:
  assumes "session_order sid E K s" "well_behaved sid E K evs"
  shows "\<exists>s'. run evs s = Returns s'
           \<and> session_order sid (E @ enqueued evs) (K @ committed evs) s'"
  using assms
proof (induction evs arbitrary: E K s)
  case Nil
  then show ?case by simp
next
  case (Cons ev evs)
  show ?case
  proof (cases ev)
    case (ProcessRequest r)
    have later: "session_id r \<noteq> sid \<or> later_in_session r E"
      and rest: "well_behaved sid (E @ [r]) K evs"
      using Cons.prems(2) ProcessRequest by simp_all
    have "session_order sid (E @ [r]) K (processRequest r s)"
      using Cons.prems(1) later by (rule session_order_processRequest)
    from Cons.IH [OF this rest] show ?thesis using ProcessRequest by simp
  next
    case (Commit c)
    have f: "session_id c \<noteq> sid \<or> (\<not> isReadRequest c \<and> c \<in> set E \<and> later_in_session c K)"
      and rest: "well_behaved sid E (K @ [c]) evs"
      using Cons.prems(2) Commit by simp_all
    have "session_order sid E (K @ [c]) (commit c s)"
      using Cons.prems(1) f by (rule session_order_commit)
    from Cons.IH [OF this rest] show ?thesis using Commit by simp
  next
    case (OnError k x accepted error_code)
    then show ?thesis using Cons.prems(2) by simp
  next
    case Iterate
    have rest: "well_behaved sid E K evs" using Cons.prems(2) Iterate by simp
    from session_order_iteration [OF Cons.prems(1)]
    obtain s1 where i: "run3_iteration s = Returns s1" and inv: "session_order sid E K s1"
      by blast
    from Cons.IH [OF inv rest] show ?thesis using Iterate i by simp
  qed
qed

text \<open>
  What the worker keeps of the order within a session. In every run of enqueues, commits
  and worker iterations, in any interleaving, with no call of \<open>onError\<close> or \<open>shutdown\<close>,
  in which the session \<open>sid\<close> enqueues its requests with strictly increasing xids and the
  commits delivered for it are commits of its enqueued writes, in xid order, whatever
  the other sessions do: no iteration meets undefined behaviour, and the requests of the
  session applied to the store are, in order, an initial part of the requests the
  session enqueued; the responses pushed for the session carry the xids of the applied
  requests, in the same, strictly increasing order. It is a statement about order only:
  it does not say that every request is applied.
\<close>

lemma applied_prefix_in_xid_order:
  assumes "well_behaved sid [] [] evs"
  shows "\<exists>s. run evs initial = Returns s
     \<and> prefix (of_session sid (applied_requests (responses_queue s)))
               (of_session sid (enqueued evs))
     \<and> sorted_wrt (<) (map xid (of_session sid (applied_requests (responses_queue s))))
     \<and> map response_xid (responses_of_session sid (responses_queue s))
        = map xid (of_session sid (applied_requests (responses_queue s)))
     \<and> sorted_wrt (<) (map response_xid (responses_of_session sid (responses_queue s)))"
proof -
  from session_order_run [OF session_order_initial assms]
  obtain s where r: "run evs initial = Returns s"
    and inv: "session_order sid (enqueued evs) (committed evs) s"
    by auto
  note d = session_orderD [OF inv]
  have p: "prefix (of_session sid (applied_requests (responses_queue s)))
                    (of_session sid (enqueued evs))"
    unfolding d(9) by simp
  have so: "sorted_wrt (<) (map xid (of_session sid (applied_requests (responses_queue s))))"
    using p d(11) by (rule prefix_sorted)
  have "responses_of_session sid (responses_queue s)
      = map StorageResponse (of_session sid (applied_requests (responses_queue s)))"
    using d(5) responses_of_session_storage [of sid "applied_requests (responses_queue s)"]
    by simp
  then have x: "map response_xid (responses_of_session sid (responses_queue s))
              = map xid (of_session sid (applied_requests (responses_queue s)))"
    by (simp add: comp_def)
  have "run evs initial = Returns s
     \<and> prefix (of_session sid (applied_requests (responses_queue s)))
               (of_session sid (enqueued evs))
     \<and> sorted_wrt (<) (map xid (of_session sid (applied_requests (responses_queue s))))
     \<and> map response_xid (responses_of_session sid (responses_queue s))
        = map xid (of_session sid (applied_requests (responses_queue s)))
     \<and> sorted_wrt (<) (map response_xid (responses_of_session sid (responses_queue s)))"
    using r p so x by simp
  then show ?thesis by (rule exI)
qed

lemma applied_prefix_in_xid_order_example:
  "well_behaved 1 [] []
     [ProcessRequest \<lparr>session_id = 1, xid = 1, isReadRequest = True\<rparr>,
      ProcessRequest \<lparr>session_id = 1, xid = 2, isReadRequest = False\<rparr>,
      ProcessRequest \<lparr>session_id = 2, xid = 7, isReadRequest = True\<rparr>,
      ProcessRequest \<lparr>session_id = 1, xid = 3, isReadRequest = True\<rparr>,
      Iterate,
      Commit \<lparr>session_id = 3, xid = 9, isReadRequest = False\<rparr>,
      Commit \<lparr>session_id = 1, xid = 2, isReadRequest = False\<rparr>,
      Iterate, Iterate]
   \<and> (\<exists>s. run
          [ProcessRequest \<lparr>session_id = 1, xid = 1, isReadRequest = True\<rparr>,
           ProcessRequest \<lparr>session_id = 1, xid = 2, isReadRequest = False\<rparr>,
           ProcessRequest \<lparr>session_id = 2, xid = 7, isReadRequest = True\<rparr>,
           ProcessRequest \<lparr>session_id = 1, xid = 3, isReadRequest = True\<rparr>,
           Iterate,
           Commit \<lparr>session_id = 3, xid = 9, isReadRequest = False\<rparr>,
           Commit \<lparr>session_id = 1, xid = 2, isReadRequest = False\<rparr>,
           Iterate, Iterate] initial = Returns s
        \<and> map response_xid (responses_of_session 1 (responses_queue s)) = [1, 2, 3]
        \<and> sorted_wrt (<) (map response_xid (responses_of_session 1 (responses_queue s))))"
proof -
  define evs where "evs =
     [ProcessRequest \<lparr>session_id = 1, xid = 1, isReadRequest = True\<rparr>,
      ProcessRequest \<lparr>session_id = 1, xid = 2, isReadRequest = False\<rparr>,
      ProcessRequest \<lparr>session_id = 2, xid = 7, isReadRequest = True\<rparr>,
      ProcessRequest \<lparr>session_id = 1, xid = 3, isReadRequest = True\<rparr>,
      Iterate,
      Commit \<lparr>session_id = 3, xid = 9, isReadRequest = False\<rparr>,
      Commit \<lparr>session_id = 1, xid = 2, isReadRequest = False\<rparr>,
      Iterate, Iterate]"
  have wb: "well_behaved 1 [] [] evs"
    by (simp add: evs_def later_in_session_def)
  from applied_prefix_in_xid_order [OF wb]
  obtain s where r: "run evs initial = Returns s"
    and so: "sorted_wrt (<) (map response_xid (responses_of_session 1 (responses_queue s)))"
    by blast
  have "run evs initial =
      Returns \<lparr>requests_queue = [], committed_queue = [], errors = [],
                pending_requests = [], pending_write_requests = [(2, []), (3, []), (1, [])],
                responses_queue =
                  [StorageResponse \<lparr>session_id = 1, xid = 1, isReadRequest = True\<rparr>,
                   StorageResponse \<lparr>session_id = 2, xid = 7, isReadRequest = True\<rparr>,
                   StorageResponse \<lparr>session_id = 3, xid = 9, isReadRequest = False\<rparr>,
                   StorageResponse \<lparr>session_id = 1, xid = 2, isReadRequest = False\<rparr>,
                   StorageResponse \<lparr>session_id = 1, xid = 3, isReadRequest = True\<rparr>],
                shutdown_called = False\<rparr>"
    by (simp add: evs_def initial_def processRequest_def commit_def run3_iteration_def
        run3_body_def and_then_def drain_errors_def serve_reads_def apply_committed_def
        push_back_def requests_of_def subscript_def Let_def)
  with r have x: "map response_xid (responses_of_session 1 (responses_queue s)) = [1, 2, 3]"
    by (auto simp add: responses_of_session_def)
  have "\<exists>s. run evs initial = Returns s
        \<and> map response_xid (responses_of_session 1 (responses_queue s)) = [1, 2, 3]
        \<and> sorted_wrt (<) (map response_xid (responses_of_session 1 (responses_queue s)))"
    using r x so by (intro exI conjI)
  with wb show ?thesis unfolding evs_def by (rule conjI)
qed

lemma session_order_pending_consistent:
  assumes inv: "\<And>sid. session_order sid E K s"
  shows "pending_consistent (pending_requests s) (pending_write_requests s)"
proof -
  note d = session_orderD [OF inv]
  have "requests_of (pending_write_requests s) (fst e) = writes (snd e)
      \<and> sorted_wrt (<) (map xid (snd e))"
    if e: "e \<in> set (pending_requests s)" for e
  proof -
    have "(fst e, snd e) \<in> set (pending_requests s)" using e by simp
    with d(3) have m: "requests_of (pending_requests s) (fst e) = snd e"
      by (rule requests_of_member)
    have "sorted_wrt (<) (map xid (of_session (fst e) E))" by (rule d(11))
    then have "sorted_wrt (<) (map xid (snd e))"
      unfolding d(9) [of "fst e"] m by (simp add: sorted_wrt_append)
    moreover have "requests_of (pending_write_requests s) (fst e) = writes (snd e)"
      using d(10) [of "fst e"] m by simp
    ultimately show ?thesis by blast
  qed
  then show ?thesis
    by (auto simp add: pending_consistent_def list_all_iff)
qed

text \<open>
  The pending maps agree with each other in every state of a run in which every session
  enqueues with strictly increasing xids, the commits are commits of enqueued writes, in
  the xid order of each session, and no error is reported; also after the input phase of
  the next iteration, where the read phase starts.
\<close>

lemma pending_consistent_reached:
  assumes "\<And>sid. well_behaved sid [] [] evs"
  shows "\<exists>s. run evs initial = Returns s
     \<and> pending_consistent (pending_requests s) (pending_write_requests s)
     \<and> pending_consistent
          (pending_requests (drain_requests (length (requests_queue s)) s))
          (pending_write_requests (drain_requests (length (requests_queue s)) s))"
proof -
  from session_order_run [OF session_order_initial assms, of 0]
  obtain s where r: "run evs initial = Returns s" by auto
  have inv: "session_order sid (enqueued evs) (committed evs) s" for sid
    using session_order_run [OF session_order_initial assms, of sid] r by auto
  have inv': "session_order sid (enqueued evs) (committed evs)
      (drain_requests (length (requests_queue s)) s)" for sid
    using session_order_drain [OF inv [of sid]] by simp
  have "pending_consistent (pending_requests s) (pending_write_requests s)"
    using inv by (rule session_order_pending_consistent)
  moreover have "pending_consistent
          (pending_requests (drain_requests (length (requests_queue s)) s))
          (pending_write_requests (drain_requests (length (requests_queue s)) s))"
    using inv' by (rule session_order_pending_consistent)
  ultimately show ?thesis using r by blast
qed

subsection \<open>A commit that finds a read at the head\<close>

lemma well_behaved_Iterate: "well_behaved sid E K (replicate n Iterate)"
  by (induction n) simp_all

text \<open>
  C1 fails on the code. Session 1 enqueues the write W1, the read R2 and the write W3,
  with the xids 1, 2 and 3, and the commits of W1 and of W3 are delivered, in that order,
  before the worker iterates. The session and the consensus layer do what is asked of
  them (\<open>well_behaved\<close>), and no error is reported. In the first iteration the read phase
  serves nothing, W1 being at the head; the commit phase applies W1, pops the commit of
  W3, finds the read R2 at the head of the pending requests and throws its \<open>Logic Error\<close>:
  the commit is lost. The second iteration serves R2. From then on W3 is at the head of
  both pending vectors with no commit to come: however many iterations follow, the state
  stays the same, W3 is never applied and no response is pushed for it.
\<close>

theorem committed_write_behind_read_never_applied:
  "(let W1 = \<lparr>session_id = 1, xid = 1, isReadRequest = False\<rparr>;
        R2 = \<lparr>session_id = 1, xid = 2, isReadRequest = True\<rparr>;
        W3 = \<lparr>session_id = 1, xid = 3, isReadRequest = False\<rparr>;
        evs = [ProcessRequest W1, ProcessRequest R2, ProcessRequest W3, Commit W1, Commit W3,
               Iterate, Iterate] @ replicate n Iterate
    in well_behaved 1 [] [] evs
       \<and> run evs initial =
           Returns \<lparr>requests_queue = [], committed_queue = [], errors = [],
                     pending_requests = [(1, [W3])], pending_write_requests = [(1, [W3])],
                     responses_queue = [StorageResponse W1, StorageResponse R2],
                     shutdown_called = False\<rparr>)"
proof -
  define W1 where "W1 = \<lparr>session_id = 1, xid = 1, isReadRequest = False\<rparr>"
  define R2 where "R2 = \<lparr>session_id = 1, xid = 2, isReadRequest = True\<rparr>"
  define W3 where "W3 = \<lparr>session_id = 1, xid = 3, isReadRequest = False\<rparr>"
  define S where "S = \<lparr>requests_queue = [], committed_queue = [], errors = [],
                     pending_requests = [(1, [W3])], pending_write_requests = [(1, [W3])],
                     responses_queue = [StorageResponse W1, StorageResponse R2],
                     shutdown_called = False\<rparr>"
  define first where "first = [ProcessRequest W1, ProcessRequest R2, ProcessRequest W3,
      Commit W1, Commit W3, Iterate, Iterate]"
  have two: "run first initial = Returns S"
    by (simp add: first_def S_def W1_def R2_def W3_def initial_def processRequest_def commit_def
        run3_iteration_def run3_body_def and_then_def drain_errors_def serve_reads_def
        apply_committed_def push_back_def requests_of_def subscript_def Let_def)
  have fixed: "run3_iteration S = Returns S"
    by (simp add: S_def W1_def R2_def W3_def run3_iteration_def run3_body_def and_then_def
        drain_errors_def serve_reads_def requests_of_def subscript_def Let_def)
  have r: "run (first @ replicate n Iterate) initial = Returns S"
    using two run_Iterate_fixed [OF fixed, of n] by (simp add: run_append)
  have wb: "well_behaved 1 [] [] (first @ replicate n Iterate)"
    by (simp add: first_def W1_def R2_def W3_def later_in_session_def well_behaved_Iterate)
  show ?thesis
    using wb r unfolding Let_def first_def S_def W1_def R2_def W3_def by (rule conjI)
qed

text \<open>
  The first of the two iterations alone: W1 is applied, the commit of W3 has left the
  committed queue, and R2 and W3 are still pending.
\<close>

lemma commit_popped_before_throw:
  "(let W1 = \<lparr>session_id = 1, xid = 1, isReadRequest = False\<rparr>;
        R2 = \<lparr>session_id = 1, xid = 2, isReadRequest = True\<rparr>;
        W3 = \<lparr>session_id = 1, xid = 3, isReadRequest = False\<rparr>
    in run [ProcessRequest W1, ProcessRequest R2, ProcessRequest W3, Commit W1, Commit W3,
            Iterate] initial =
         Returns \<lparr>requests_queue = [], committed_queue = [], errors = [],
                   pending_requests = [(1, [R2, W3])], pending_write_requests = [(1, [W3])],
                   responses_queue = [StorageResponse W1],
                   shutdown_called = False\<rparr>)"
  by (simp add: initial_def processRequest_def commit_def
      run3_iteration_def run3_body_def and_then_def drain_errors_def serve_reads_def
      apply_committed_def push_back_def requests_of_def subscript_def Let_def)

text \<open>
  With an error reported, the order of the responses is not kept either. Session 1 has
  W2, R3 and W4 pending when \<open>onError\<close> is called for xid 4: the next iteration pushes the
  error response of W4 at once, and the responses of W2 and R3 come after it.
\<close>

lemma error_response_overtakes:
  "(let W2 = \<lparr>session_id = 1, xid = 2, isReadRequest = False\<rparr>;
        R3 = \<lparr>session_id = 1, xid = 3, isReadRequest = True\<rparr>;
        W4 = \<lparr>session_id = 1, xid = 4, isReadRequest = False\<rparr>
    in run [ProcessRequest W2, ProcessRequest R3, ProcessRequest W4, Iterate,
            OnError 1 4 True TIMEOUT, Iterate, Commit W2, Iterate, Iterate] initial =
         Returns \<lparr>requests_queue = [], committed_queue = [], errors = [],
                   pending_requests = [], pending_write_requests = [(1, [])],
                   responses_queue = [MadeResponse 1 4 0 ZOPERATIONTIMEOUT, StorageResponse W2,
                                      StorageResponse R3],
                   shutdown_called = False\<rparr>
       \<and> map response_xid
            [MadeResponse 1 4 0 ZOPERATIONTIMEOUT, StorageResponse W2, StorageResponse R3]
          = [4, 2, 3])"
  by (simp add: initial_def processRequest_def commit_def onError_def
      run3_iteration_def run3_body_def and_then_def drain_errors_def serve_reads_def
      apply_committed_def push_back_def requests_of_def subscript_def find_map_def
      commit_error_def Let_def)

end
